theory Spec2Isabelle
  imports Complex_Main "HOL-Library.Word"
begin

unbundle bit_operations_syntax

section \<open>Machine glue of the compact Macintosh driver (mac128.cpp)\<close>

text \<open>
  The driver state \<open>mac128_state\<close> is embedded as a record holding the members the glue
  logic reads and writes.  Sibling devices are kept as small records of their own: the
  68000 with its interrupt input lines and cycle accounting, the selected floppy drive with
  its type and motor speed.  The VIA is an external collaborator and stays abstract (a type
  parameter with its register read and write passed in).
\<close>

subsection \<open>The CPU as seen by the glue logic\<close>

datatype line_state = CLEAR_LINE | ASSERT_LINE

text \<open>
  Modelled from the spec: the 68000 core is not part of the sources.  The spec gives its
  interface as a cycle-counter query and an "adjust remaining cycles" operation; the
  counter is the cycles accounted before the running time slice plus the part of the slice
  already used, so lowering the remaining budget \<open>m_icount\<close> by \<open>k\<close> moves the counter
  forward by \<open>k\<close>.  \<open>input_line\<close> is the level of each interrupt input and \<open>line_events\<close>
  the calls of \<open>set_input_line\<close> in the order they were made.
\<close>

record m68000_device =
  input_line :: "int \<Rightarrow> line_state"
  line_events :: "(int \<times> line_state) list"
  m_totalcycles :: "64 word"
  m_cycles_running :: int
  m_icount :: int

definition set_input_line :: "int \<Rightarrow> line_state \<Rightarrow> m68000_device \<Rightarrow> m68000_device" where
  "set_input_line l st c =
     c\<lparr>input_line := (input_line c)(l := st), line_events := line_events c @ [(l, st)]\<rparr>"

definition total_cycles :: "m68000_device \<Rightarrow> 64 word" where
  "total_cycles c = m_totalcycles c + word_of_int (m_cycles_running c) - word_of_int (m_icount c)"

definition adjust_icount :: "int \<Rightarrow> m68000_device \<Rightarrow> m68000_device" where
  "adjust_icount delta c = c\<lparr>m_icount := m_icount c + delta\<rparr>"

subsection \<open>The floppy drive as seen by the PWM decoder\<close>

datatype floppy_type = OAD34V | OTHER_DRIVE

text \<open>
  \<open>rpm_commits\<close> lists the speeds handed to \<open>set_rpm\<close>, oldest first.  A \<open>float\<close> is
  kept as the rational number it denotes.
\<close>

record floppy_image_device =
  drive_type :: floppy_type
  drive_rpm :: rat
  rpm_commits :: "rat list"

definition set_rpm :: "rat \<Rightarrow> floppy_image_device \<Rightarrow> floppy_image_device" where
  "set_rpm r f = f\<lparr>drive_rpm := r, rpm_commits := rpm_commits f @ [r]\<rparr>"

subsection \<open>Driver state\<close>

record 'via mac128_state =
  m_maincpu :: m68000_device
  m_via :: 'via
  m_cur_floppy :: "floppy_image_device option"
  m_pwm_count_total :: int
  m_pwm_count_1 :: int
  m_pwm_current_rpm :: "rat \<times> rat"
  m_overlay :: "32 word"
  m_scc_interrupt :: int
  m_via_interrupt :: int
  m_scsi_interrupt :: int
  m_last_taken_interrupt :: int
  m_ram_ptr :: "32 word \<Rightarrow> 16 word"
  m_rom_ptr :: "32 word \<Rightarrow> 16 word"
  m_ram_mask :: "32 word"
  m_ram_size :: "32 word"

subsection \<open>Overlay and RAM window\<close>

text \<open>
  \<open>COMBINE_DATA\<close> is the emulator core's macro for a masked 16-bit store: the lanes
  selected by \<open>mem_mask\<close> take the new data, the others keep the old contents.
\<close>

definition COMBINE_DATA :: "16 word \<Rightarrow> 16 word \<Rightarrow> 16 word \<Rightarrow> 16 word" where
  "COMBINE_DATA old data mem_mask = (old AND NOT mem_mask) OR (data AND mem_mask)"

definition ram_r :: "'via mac128_state \<Rightarrow> 32 word \<Rightarrow> 16 word" where
  "ram_r s offset =
     (if m_overlay s \<noteq> 0 then m_rom_ptr s (offset AND 0x7ffff)
      else m_ram_ptr s (offset AND m_ram_mask s))"

definition ram_w :: "32 word \<Rightarrow> 16 word \<Rightarrow> 16 word \<Rightarrow> 'via mac128_state \<Rightarrow> 'via mac128_state" where
  "ram_w offset data mem_mask s =
     (if m_overlay s = 0
      then s\<lparr>m_ram_ptr := (m_ram_ptr s)(offset AND m_ram_mask s :=
                 COMBINE_DATA (m_ram_ptr s (offset AND m_ram_mask s)) data mem_mask)\<rparr>
      else s)"

definition ram_w_se :: "32 word \<Rightarrow> 16 word \<Rightarrow> 16 word \<Rightarrow> 'via mac128_state \<Rightarrow> 'via mac128_state" where
  "ram_w_se offset data mem_mask s =
     s\<lparr>m_overlay := 0,
       m_ram_ptr := (m_ram_ptr s)(offset AND m_ram_mask s :=
                 COMBINE_DATA (m_ram_ptr s (offset AND m_ram_mask s)) data mem_mask)\<rparr>"

text \<open>
  The address maps route the window \<open>0x000000-0x3fffff\<close> to \<open>ram_w\<close> on the 128K/512K/Plus
  maps and to \<open>ram_w_se\<close> on the SE map.
\<close>

datatype machine_map = MAC512KE_MAP | MACPLUS_MAP | MACSE_MAP

definition low_window_w ::
  "machine_map \<Rightarrow> 32 word \<Rightarrow> 16 word \<Rightarrow> 16 word \<Rightarrow> 'via mac128_state \<Rightarrow> 'via mac128_state" where
  "low_window_w m offset data mem_mask s =
     (case m of
        MAC512KE_MAP \<Rightarrow> ram_w offset data mem_mask s
      | MACPLUS_MAP \<Rightarrow> ram_w offset data mem_mask s
      | MACSE_MAP \<Rightarrow> ram_w_se offset data mem_mask s)"

subsection \<open>Interrupt arbiter\<close>

definition field_interrupts :: "'via mac128_state \<Rightarrow> 'via mac128_state" where
  "field_interrupts s =
     (let take_interrupt =
            (if m_scc_interrupt s \<noteq> 0 \<or> m_scsi_interrupt s \<noteq> 0 then 2
             else if m_via_interrupt s \<noteq> 0 then 1 else - 1);
          s1 = (if m_last_taken_interrupt s > - 1
                then s\<lparr>m_maincpu := set_input_line (m_last_taken_interrupt s) CLEAR_LINE (m_maincpu s),
                       m_last_taken_interrupt := - 1\<rparr>
                else s)
      in if take_interrupt > - 1
         then s1\<lparr>m_maincpu := set_input_line take_interrupt ASSERT_LINE (m_maincpu s1),
                 m_last_taken_interrupt := take_interrupt\<rparr>
         else s1)"

definition set_scc_interrupt :: "int \<Rightarrow> 'via mac128_state \<Rightarrow> 'via mac128_state" where
  "set_scc_interrupt state s = field_interrupts (s\<lparr>m_scc_interrupt := state\<rparr>)"

definition set_via_interrupt :: "int \<Rightarrow> 'via mac128_state \<Rightarrow> 'via mac128_state" where
  "set_via_interrupt v s = field_interrupts (s\<lparr>m_via_interrupt := v\<rparr>)"

text \<open>The level the arbiter's policy selects: 2, 1 or none (\<open>- 1\<close>).\<close>

definition irq_level :: "'via mac128_state \<Rightarrow> int" where
  "irq_level s =
     (if m_scc_interrupt s \<noteq> 0 \<or> m_scsi_interrupt s \<noteq> 0 then 2
      else if m_via_interrupt s \<noteq> 0 then 1 else - 1)"

text \<open>
  Between two calls of the arbiter the only CPU line that can be asserted is the one
  recorded in \<open>m_last_taken_interrupt\<close>: no other code of the driver drives the CPU's
  interrupt inputs.
\<close>

definition lines_tracked :: "'via mac128_state \<Rightarrow> bool" where
  "lines_tracked s \<longleftrightarrow>
     (\<forall>l. input_line (m_maincpu s) l = ASSERT_LINE \<longrightarrow> l = m_last_taken_interrupt s \<and> - 1 < l)"


subsection \<open>VIA bus synchronisation\<close>

text \<open>
  The locals of \<open>via_sync\<close> are \<open>uint64_t\<close>; the argument of \<open>adjust_icount\<close> is an
  \<open>int\<close>, so the 64-bit difference is cut to 32 bits and read as two's complement.
\<close>

definition via_sync_delta :: "64 word \<Rightarrow> int" where
  "via_sync_delta cur_cycle =
     (let vpa_cycle = cur_cycle + 2;
          via_start_cycle = (vpa_cycle + 9) div 10;
          m68k_start_cycle = via_start_cycle * 10
      in sint (ucast (cur_cycle - m68k_start_cycle) :: 32 word))"

definition via_sync :: "'via mac128_state \<Rightarrow> 'via mac128_state" where
  "via_sync s =
     s\<lparr>m_maincpu := adjust_icount (via_sync_delta (total_cycles (m_maincpu s))) (m_maincpu s)\<rparr>"

definition via_sync_end :: "'via mac128_state \<Rightarrow> 'via mac128_state" where
  "via_sync_end s = s\<lparr>m_maincpu := adjust_icount (- 4) (m_maincpu s)\<rparr>"

text \<open>
  The VIA itself is a collaborator: its register read (returning the byte and the VIA's
  new state) and write are parameters.
\<close>

definition mac_via_r ::
  "('via \<Rightarrow> 32 word \<Rightarrow> 8 word \<times> 'via) \<Rightarrow> 32 word \<Rightarrow> 'via mac128_state \<Rightarrow> 16 word \<times> 'via mac128_state" where
  "mac_via_r via_read offset s =
     (let offset1 = drop_bit 8 offset AND 0x0f;
          s1 = via_sync s;
          (byte, v) = via_read (m_via s1) offset1;
          data = (ucast byte :: 16 word);
          s2 = via_sync_end (s1\<lparr>m_via := v\<rparr>)
      in ((data AND 0xff) OR push_bit 8 data, s2))"

definition mac_via_w ::
  "('via \<Rightarrow> 32 word \<Rightarrow> 8 word \<Rightarrow> 'via) \<Rightarrow> 32 word \<Rightarrow> 16 word \<Rightarrow> 'via mac128_state \<Rightarrow> 'via mac128_state" where
  "mac_via_w via_write offset data s =
     (let offset1 = drop_bit 8 offset AND 0x0f;
          s1 = via_sync s;
          v = via_write (m_via s1) offset1 (ucast (drop_bit 8 data AND 0xff))
      in via_sync_end (s1\<lparr>m_via := v\<rparr>))"

subsection \<open>Floppy motor speed from the PWM stream\<close>

definition value_to_length :: "nat list" where
  "value_to_length =
     [ 0,  1, 59,  2, 60, 40, 54,  3,
      61, 32, 49, 41, 55, 19, 35,  4,
      62, 52, 30, 33, 50, 12, 14, 42,
      56, 16, 27, 20, 36, 23, 44,  5,
      63, 58, 39, 53, 31, 48, 18, 34,
      51, 29, 11, 13, 15, 26, 22, 43,
      57, 38, 47, 17, 28, 10, 25, 21,
      37, 46,  9, 24, 45,  8,  7,  6]"

text \<open>The pulse length a data byte stands for (the table has 64 entries, the index 6 bits).\<close>

definition pulse_length :: "8 word \<Rightarrow> int" where
  "pulse_length data = int (value_to_length ! unat (data AND 0x3f))"

text \<open>C's integer division truncates towards zero.\<close>

definition c_div :: "int \<Rightarrow> int \<Rightarrow> int" where
  "c_div a b = sgn a * sgn b * (\<bar>a\<bar> div \<bar>b\<bar>)"

definition internal_index :: "int \<Rightarrow> int \<Rightarrow> int" where
  "internal_index count_1 count_total =
     (let i = c_div count_1 (c_div count_total 10) - 11;
          i = (if i < 0 then 0 else i)
      in if i > 399 then 399 else i)"

text \<open>
  Binary floating point, on the rational numbers the values denote.  \<open>fp_exponent x\<close> is
  the exponent \<open>e\<close> of a positive \<open>x\<close>, with \<open>2^e \<le> x < 2^(e+1)\<close>, read off the bit
  length of the integer part of \<open>x\<close> or of \<open>1/x\<close>.  \<open>fp_round p emin\<close> rounds to the
  nearest number with \<open>p\<close> significant bits, ties to the even one, with the exponent
  held at \<open>emin\<close> for subnormal results.  The values of this driver stay below
  \<open>2^10\<close>, so there is no overflow to model.
\<close>

definition pow2 :: "int \<Rightarrow> rat" where
  "pow2 e = (if 0 \<le> e then 2 ^ nat e else 1 / 2 ^ nat (- e))"

fun bit_length :: "nat \<Rightarrow> nat" where
  "bit_length n = (if n = 0 then 0 else Suc (bit_length (n div 2)))"

declare bit_length.simps [simp del]

definition fp_exponent :: "rat \<Rightarrow> int" where
  "fp_exponent x =
     (if 1 \<le> x then int (bit_length (nat \<lfloor>x\<rfloor>)) - 1
      else (let l = int (bit_length (nat \<lfloor>1 / x\<rfloor>))
            in if x = pow2 (1 - l) then 1 - l else - l))"

definition round_half_even :: "rat \<Rightarrow> int" where
  "round_half_even q =
     (let n = \<lfloor>q\<rfloor>; r = q - of_int n
      in if r < 1 / 2 then n else if 1 / 2 < r then n + 1 else if even n then n else n + 1)"

definition fp_round :: "nat \<Rightarrow> int \<Rightarrow> rat \<Rightarrow> rat" where
  "fp_round p emin x =
     (if x = 0 then 0
      else (let e = max (fp_exponent \<bar>x\<bar>) emin;
                ulp = pow2 (e - int p + 1)
            in sgn x * of_int (round_half_even (\<bar>x\<bar> / ulp)) * ulp))"

text \<open>IEEE 754 \<open>double\<close> (53 bits) and \<open>float\<close> (24 bits).\<close>

definition to_double :: "rat \<Rightarrow> rat" where
  "to_double = fp_round 53 (- 1022)"

definition to_float :: "rat \<Rightarrow> rat" where
  "to_float = fp_round 24 (- 126)"

text \<open>
  The two assignments \<open>float duty_cycle = internal_index / 419.0\<close> and
  \<open>float rpm = (duty_cycle - 0.094) * (702.5 - 342.5) / (0.91 - 0.094) + 342.5\<close>.  The
  literals are \<open>double\<close>, so every operation is done and rounded in \<open>double\<close> (the
  literals \<open>0.094\<close> and \<open>0.91\<close> are rounded too, \<open>419.0\<close>, \<open>702.5\<close> and \<open>342.5\<close> are
  exact), and each assignment rounds once more to \<open>float\<close>.
\<close>

definition pwm_rpm :: "int \<Rightarrow> rat" where
  "pwm_rpm idx =
     (let duty_cycle = to_float (to_double (of_int idx / 419))
      in to_float
           (to_double
              (to_double
                 (to_double (to_double (duty_cycle - to_double (94 / 1000))
                               * to_double (7025 / 10 - 3425 / 10))
                    / to_double (to_double (91 / 100) - to_double (94 / 1000)))
               + 3425 / 10)))"

text \<open>
  \<open>m_iwm->sync()\<close>, called just before \<open>set_rpm\<close>, brings the floppy controller up to the
  current time and touches nothing of this state; it is left out.
\<close>

definition pwm_push :: "8 word \<Rightarrow> 'via mac128_state \<Rightarrow> 'via mac128_state" where
  "pwm_push data s =
     (let s1 = s\<lparr>m_pwm_count_1 := m_pwm_count_1 s + pulse_length data,
                 m_pwm_count_total := m_pwm_count_total s + 1\<rparr>
      in if m_pwm_count_total s1 = 100
         then
           (let rpm = pwm_rpm (internal_index (m_pwm_count_1 s1) (m_pwm_count_total s1));
                cur = m_pwm_current_rpm s1;
                s2 = (if rpm = snd cur \<and> snd cur \<noteq> fst cur
                      then (case m_cur_floppy s1 of
                              Some f \<Rightarrow>
                                if drive_type f = OAD34V
                                then s1\<lparr>m_cur_floppy := Some (set_rpm rpm f)\<rparr> else s1
                            | None \<Rightarrow> s1)
                      else s1)
            in s2\<lparr>m_pwm_current_rpm := (snd cur, rpm),
                  m_pwm_count_1 := 0,
                  m_pwm_count_total := 0\<rparr>)
         else s1)"

text \<open>Feeding a run of bytes, one \<open>pwm_push\<close> per scanline.\<close>

definition pwm_feed :: "8 word list \<Rightarrow> 'via mac128_state \<Rightarrow> 'via mac128_state" where
  "pwm_feed ds s = fold pwm_push ds s"

definition pulse_sum :: "8 word list \<Rightarrow> int" where
  "pulse_sum ds = sum_list (map pulse_length ds)"

text \<open>The speed a full window of 100 pulses computes.\<close>

definition window_rpm :: "8 word list \<Rightarrow> rat" where
  "window_rpm ds = pwm_rpm (internal_index (pulse_sum ds) 100)"

text \<open>The speeds committed to the selected drive so far.\<close>

definition commits :: "'via mac128_state \<Rightarrow> rat list" where
  "commits s = (case m_cur_floppy s of None \<Rightarrow> [] | Some f \<Rightarrow> rpm_commits f)"

definition asserted_lines :: "'via mac128_state \<Rightarrow> int set" where
  "asserted_lines s = {l. input_line (m_maincpu s) l = ASSERT_LINE}"

subsection \<open>Reset\<close>

text \<open>
  \<open>machine_reset\<close> on the members of the model (the scanline timer and the VIA's PB6
  are outside it).  \<open>m_last_taken_interrupt\<close> is assigned twice in the source, first
  \<open>- 1\<close> and then \<open>0\<close>; the second assignment stands.
\<close>

definition machine_reset :: "'via mac128_state \<Rightarrow> 'via mac128_state" where
  "machine_reset s =
     s\<lparr>m_last_taken_interrupt := 0,
       m_overlay := 1,
       m_pwm_count_total := 0,
       m_pwm_count_1 := 0,
       m_pwm_current_rpm := (605 / 2, 605 / 2)\<rparr>"

text \<open>
  A machine before its first reset, used to run the model on concrete inputs: 512K words
  of zeroed RAM, no interrupt pending, no CPU line asserted, no drive selected.
\<close>

definition cold_cpu :: m68000_device where
  "cold_cpu = \<lparr>input_line = (\<lambda>l. CLEAR_LINE), line_events = [], m_totalcycles = 0,
               m_cycles_running = 0, m_icount = 0\<rparr>"

definition cold_machine :: "unit mac128_state" where
  "cold_machine =
     \<lparr>m_maincpu = cold_cpu, m_via = (), m_cur_floppy = None,
      m_pwm_count_total = 0, m_pwm_count_1 = 0, m_pwm_current_rpm = (0, 0),
      m_overlay = 0, m_scc_interrupt = 0, m_via_interrupt = 0, m_scsi_interrupt = 0,
      m_last_taken_interrupt = 0,
      m_ram_ptr = (\<lambda>a. 0), m_rom_ptr = (\<lambda>a. 0), m_ram_mask = 0x7ffff, m_ram_size = 0x80000\<rparr>"

text \<open>
  The body of the \<open>if (m_pwm_count_total == 100)\<close> block of \<open>pwm_push\<close>, given the
  speed the window computed: the debounced commit, the shift of the two remembered
  speeds and the reset of both counters.
\<close>

definition window_end :: "rat \<Rightarrow> 'via mac128_state \<Rightarrow> 'via mac128_state" where
  "window_end rpm s =
     (let cur = m_pwm_current_rpm s;
          s2 = (if rpm = snd cur \<and> snd cur \<noteq> fst cur
                then (case m_cur_floppy s of
                        Some f \<Rightarrow> if drive_type f = OAD34V
                                  then s\<lparr>m_cur_floppy := Some (set_rpm rpm f)\<rparr> else s
                      | None \<Rightarrow> s)
                else s)
      in s2\<lparr>m_pwm_current_rpm := (snd cur, rpm), m_pwm_count_1 := 0, m_pwm_count_total := 0\<rparr>)"

text \<open>Machines after reset with a drive selected, and one at a given cycle count.\<close>

definition machine_with_drive :: "floppy_type \<Rightarrow> unit mac128_state" where
  "machine_with_drive ty =
     machine_reset (cold_machine\<lparr>m_cur_floppy :=
       Some \<lparr>drive_type = ty, drive_rpm = 0, rpm_commits = []\<rparr>\<rparr>)"

definition machine_at_cycle :: "64 word \<Rightarrow> unit mac128_state" where
  "machine_at_cycle c = cold_machine\<lparr>m_maincpu := cold_cpu\<lparr>m_totalcycles := c\<rparr>\<rparr>"

section \<open>The YMF278B wavetable and FM synthesiser\<close>

text \<open>
  The second source file is the OPL4 device.  Its header is not among the sources, so the
  member types are taken from their use: register fields hold values masked out of a data
  byte and are kept as integers, the envelope counters are unsigned 32-bit, the sample
  position \<open>stepptr\<close> is an unsigned 64-bit fixed-point number with 16 fractional bits.
\<close>

type_synonym u8 = "8 word"
type_synonym u32 = "32 word"
type_synonym u64 = "64 word"

record YMF278BSlot =
  wave :: int
  F_NUMBER :: int
  octave :: int
  preverb :: int
  DAMP :: int
  CH :: int
  LD :: int
  TL :: int
  pan :: int
  LFO :: int
  VIB :: int
  AM :: int
  AR :: int
  D1R :: int
  DL :: int
  D2R :: int
  RC :: int
  RR :: int
  step :: u32
  stepptr :: u64
  active :: int
  KEY_ON :: int
  bits :: int
  startaddr :: u32
  loopaddr :: u32
  endaddr :: u32
  env_step :: int
  env_vol :: u32
  env_vol_step :: u32
  env_vol_lim :: u32
  env_preverb :: int

subsection \<open>Rate tables\<close>

text \<open>
  \<open>precompute_rate_tables\<close> fills both 64-entry tables once at start with integer
  arithmetic; they are constants of the model.
\<close>

definition m_lut_dr :: "int \<Rightarrow> int" where
  "m_lut_dr i =
     (if i \<le> 3 then 0
      else if i \<ge> 60 then push_bit 4 15
      else push_bit (nat (21 - i div 4)) 15 div (4 + i mod 4))"

definition m_lut_ar :: "int \<Rightarrow> int" where
  "m_lut_ar i =
     (if i \<le> 3 \<or> i = 63 then 0
      else if i \<ge> 60 then 17
      else push_bit (nat (15 - i div 4)) 67 div (4 + i mod 4))"

subsection \<open>Envelope generator\<close>

definition compute_rate :: "YMF278BSlot \<Rightarrow> int \<Rightarrow> int" where
  "compute_rate slot val =
     (if val = 0 then 0
      else if val = 15 then 63
      else
        (let res =
               (if RC slot \<noteq> 15
                then (let oct = octave slot;
                          oct = (if oct AND 8 \<noteq> 0 then oct OR (- 8) else oct)
                      in (oct + RC slot) * 2 + (if F_NUMBER slot AND 0x200 \<noteq> 0 then 1 else 0) + val * 4)
                else val * 4)
         in if res < 0 then 0 else if res > 63 then 63 else res))"

text \<open>
  \<open>compute_decay_env_vol_step\<close> returns the step and may latch \<open>env_preverb\<close>; the
  model returns both the step and the slot.  \<open>256U<<23\<close> is \<open>2^31\<close>.
\<close>

definition compute_decay_env_vol_step :: "YMF278BSlot \<Rightarrow> int \<Rightarrow> u32 \<times> YMF278BSlot" where
  "compute_decay_env_vol_step slot val =
     (let (rate, slot1) =
            (if DAMP slot \<noteq> 0 then (56, slot)
             else if preverb slot \<noteq> 0 \<and> env_vol slot > push_bit 23 (6 * 8)
             then (5, slot\<lparr>env_preverb := 1\<rparr>)
             else (compute_rate slot val, slot));
          res = (if rate < 4 then 0 else word_of_int (push_bit 23 256 div m_lut_dr rate))
      in (res, slot1))"

definition compute_freq_step :: "YMF278BSlot \<Rightarrow> YMF278BSlot" where
  "compute_freq_step slot =
     (let oct = octave slot;
          oct = (if oct AND 8 \<noteq> 0 then oct OR (- 8) else oct);
          step1 = (word_of_int (push_bit (nat (oct + 8)) (F_NUMBER slot OR 1024)) :: u32)
      in slot\<lparr>step := drop_bit 3 step1\<rparr>)"

text \<open>
  The phases by \<open>env_step\<close>: 0 attack, 1 decay 1, 2 decay 2, 3 decay 2 done, 4 release,
  5 release done.  Attack with rate 63 and decay 1 with \<open>DL = 0\<close> fall through to the next
  phase by calling \<open>compute_envelope\<close> again.
\<close>

function compute_envelope :: "YMF278BSlot \<Rightarrow> YMF278BSlot" where
  "compute_envelope slot =
     (if env_step slot = 0 then
        (let rate = compute_rate slot (AR slot);
             slot1 = slot\<lparr>env_vol := push_bit 23 256, env_vol_lim := push_bit 23 256 - 1\<rparr>
         in if rate = 63
            then compute_envelope (slot1\<lparr>env_vol := 0, env_step := env_step slot1 + 1\<rparr>)
            else if rate < 4 then slot1\<lparr>env_vol_step := 0\<rparr>
            else slot1\<lparr>env_vol_step := NOT (word_of_int (push_bit 23 256 div m_lut_ar rate))\<rparr>)
      else if env_step slot = 1 then
        (if DL slot \<noteq> 0
         then (let (res, slot1) = compute_decay_env_vol_step slot (D1R slot)
               in slot1\<lparr>env_vol_step := res, env_vol_lim := word_of_int (push_bit 23 (DL slot * 8))\<rparr>)
         else compute_envelope (slot\<lparr>env_step := env_step slot + 1\<rparr>))
      else if env_step slot = 2 then
        (let (res, slot1) = compute_decay_env_vol_step slot (D2R slot)
         in slot1\<lparr>env_vol_step := res, env_vol_lim := push_bit 23 256\<rparr>)
      else if env_step slot = 3 then
        slot\<lparr>env_vol := push_bit 23 256, env_vol_step := 0, env_vol_lim := 0, active := 0\<rparr>
      else if env_step slot = 4 then
        (let (res, slot1) = compute_decay_env_vol_step slot (RR slot)
         in slot1\<lparr>env_vol_step := res, env_vol_lim := push_bit 23 256\<rparr>)
      else if env_step slot = 5 then
        slot\<lparr>env_vol := push_bit 23 256, env_vol_step := 0, env_vol_lim := 0, active := 0\<rparr>
      else slot)"
  by pat_completeness auto
termination
  by (relation "measure (\<lambda>slot. nat (2 - env_step slot))") auto

declare compute_envelope.simps [simp del]

definition retrigger_sample :: "YMF278BSlot \<Rightarrow> YMF278BSlot" where
  "retrigger_sample slot =
     (let slot1 = (if octave slot \<noteq> 8 then slot\<lparr>active := 1\<rparr> else slot);
          slot2 = slot1\<lparr>stepptr := 0, env_step := 0, env_preverb := 0\<rparr>
      in compute_envelope (compute_freq_step slot2))"

subsection \<open>Device state\<close>

text \<open>
  The FM engine \<open>m_fm\<close> is a collaborator outside the sources: its state is a type
  parameter and the operations the device calls on it are passed in as a record.
  \<open>fm_new2flag\<close> and \<open>fm_newflag\<close> are the two mode flags of its register bank,
  \<open>fm_clock\<close> advances it by one FM sample.
\<close>

record 'fm fm_engine =
  fm_new2flag :: "'fm \<Rightarrow> u32"
  fm_newflag :: "'fm \<Rightarrow> u32"
  fm_write :: "u32 \<Rightarrow> u8 \<Rightarrow> 'fm \<Rightarrow> 'fm"
  fm_regs_read :: "'fm \<Rightarrow> u32 \<Rightarrow> u8"
  fm_status :: "'fm \<Rightarrow> u8"
  fm_set_reset_status :: "u8 \<Rightarrow> u8 \<Rightarrow> 'fm \<Rightarrow> 'fm"
  fm_clock :: "'fm \<Rightarrow> 'fm"
  fm_reset :: "'fm \<Rightarrow> 'fm"

text \<open>
  \<open>m_space\<close> is the external wave memory behind \<open>read_byte\<close> and
  \<open>space(0).write_byte\<close>.  The two timers hold the delay they were last armed with
  (in clocks for \<open>m_timer_ld\<close>, as the divisor of the clock for \<open>m_timer_busy\<close>).
  \<open>m_volume\<close> is the attenuation table that \<open>device_start\<close> fills with floating-point
  arithmetic; its entries are left open.  \<open>m_mix_buffer\<close> holds four accumulators per
  output sample.  The slots are \<open>m_slots 0 .. m_slots 23\<close>.
\<close>

record 'fm ymf278b_device =
  m_fm :: 'fm
  m_slots :: "nat \<Rightarrow> YMF278BSlot"
  m_pcmregs :: "u8 \<Rightarrow> u8"
  m_wavetblhdr :: u32
  m_memmode :: u32
  m_memadr :: u32
  m_fm_l :: int
  m_fm_r :: int
  m_pcm_l :: int
  m_pcm_r :: int
  m_fm_pos :: u32
  m_port_AB :: u8
  m_port_C :: u8
  m_lastport :: u8
  m_next_status_id :: bool
  m_space :: "u32 \<Rightarrow> u8"
  m_timer_busy :: "nat option"
  m_timer_ld :: "nat option"
  m_volume :: "nat \<Rightarrow> int"
  m_mix_buffer :: "nat \<Rightarrow> int"

definition STATUS_BUSY :: u8 where "STATUS_BUSY = 0x01"
definition STATUS_LD :: u8 where "STATUS_LD = 0x02"

definition read_byte :: "'fm ymf278b_device \<Rightarrow> u32 \<Rightarrow> u8" where
  "read_byte s a = m_space s a"

subsection \<open>PCM register writes\<close>

text \<open>
  The cases 1 to 9 of the slot switch of \<open>C_w\<close>, as a function of the slot: \<open>grp\<close> is
  \<open>(reg-8) / 24\<close>, \<open>old\<close> the value \<open>m_pcmregs[reg]\<close> held before the write.  In case 4
  the \<open>break\<close> taken when the key was already on leaves \<open>KEY_ON\<close> as it is.
\<close>

definition C_w_slot :: "nat \<Rightarrow> u8 \<Rightarrow> u8 \<Rightarrow> YMF278BSlot \<Rightarrow> YMF278BSlot" where
  "C_w_slot grp old data slot =
     (let d = uint data in
      if grp = 1 then
        (let slot1 = slot\<lparr>wave := (wave slot AND 0xff) OR push_bit 8 (d AND 0x1)\<rparr>;
             slot2 = slot1\<lparr>F_NUMBER := (F_NUMBER slot1 AND 0x380) OR drop_bit 1 d\<rparr>
         in if active slot2 \<noteq> 0 \<and> (data XOR old) AND 0xfe \<noteq> 0
            then compute_envelope (compute_freq_step slot2) else slot2)
      else if grp = 2 then
        (let slot1 = slot\<lparr>F_NUMBER := (F_NUMBER slot AND 0x07f) OR push_bit 7 (d AND 0x07)\<rparr>;
             slot2 = slot1\<lparr>preverb := drop_bit 3 (d AND 0x8), octave := drop_bit 4 (d AND 0xf0)\<rparr>
         in if data \<noteq> old
            then (let slot3 = slot2\<lparr>active := (if octave slot2 \<noteq> 8 then 1 else 0)\<rparr>
                  in if active slot3 \<noteq> 0
                     then compute_envelope (compute_freq_step (slot3\<lparr>env_preverb := 0\<rparr>))
                     else slot3)
            else slot2)
      else if grp = 3 then
        slot\<lparr>TL := drop_bit 1 d, LD := d AND 0x1\<rparr>
      else if grp = 4 then
        (let slot1 = slot\<lparr>CH := drop_bit 4 (d AND 0x10), pan := d AND 0xf,
                          DAMP := drop_bit 6 (d AND 0x40)\<rparr>
         in if d AND 0x80 \<noteq> 0
            then (if KEY_ON slot1 \<noteq> 0
                  then (if (data XOR old) AND 0x40 \<noteq> 0 then compute_envelope slot1 else slot1)
                  else (retrigger_sample slot1)\<lparr>KEY_ON := drop_bit 7 (d AND 0x80)\<rparr>)
            else if active slot1 \<noteq> 0
            then (compute_envelope (slot1\<lparr>env_step := 4\<rparr>))\<lparr>KEY_ON := drop_bit 7 (d AND 0x80)\<rparr>
            else slot1\<lparr>KEY_ON := drop_bit 7 (d AND 0x80)\<rparr>)
      else if grp = 5 then
        slot\<lparr>LFO := drop_bit 3 d AND 0x7, VIB := d AND 0x7\<rparr>
      else if grp = 6 then
        (let slot1 = slot\<lparr>AR := drop_bit 4 d, D1R := d AND 0xf\<rparr>
         in if active slot1 \<noteq> 0 \<and> data \<noteq> old then compute_envelope slot1 else slot1)
      else if grp = 7 then
        (let slot1 = slot\<lparr>DL := drop_bit 4 d, D2R := d AND 0xf\<rparr>
         in if active slot1 \<noteq> 0 \<and> data \<noteq> old then compute_envelope slot1 else slot1)
      else if grp = 8 then
        (let slot1 = slot\<lparr>RC := drop_bit 4 d, RR := d AND 0xf\<rparr>
         in if active slot1 \<noteq> 0 \<and> data \<noteq> old then compute_envelope slot1 else slot1)
      else if grp = 9 then
        slot\<lparr>AM := d AND 0x7\<rparr>
      else slot)"

text \<open>
  \<open>C_w\<close> for every register but the 24 wave-number registers (\<open>0x08 .. 0x1f\<close>): slot
  registers of the groups 1 to 9 and the global registers.  The unexpected-register log
  message changes nothing.  Register 3 stores the data masked to six bits.
\<close>

definition C_w_direct :: "u8 \<Rightarrow> u8 \<Rightarrow> 'fm ymf278b_device \<Rightarrow> 'fm ymf278b_device" where
  "C_w_direct reg data s =
     (if 0x08 \<le> reg \<and> reg \<le> 0xf7 then
        (let snum = (unat reg - 8) mod 24;
             grp = (unat reg - 8) div 24;
             slot = C_w_slot grp (m_pcmregs s reg) data (m_slots s snum)
         in s\<lparr>m_slots := (m_slots s)(snum := slot), m_pcmregs := (m_pcmregs s)(reg := data)\<rparr>)
      else if reg = 0x02 then
        s\<lparr>m_wavetblhdr := ucast (drop_bit 2 data) AND 0x7, m_memmode := ucast data AND 3,
          m_pcmregs := (m_pcmregs s)(reg := data)\<rparr>
      else if reg = 0x03 then
        s\<lparr>m_pcmregs := (m_pcmregs s)(reg := data AND 0x3f)\<rparr>
      else if reg = 0x05 then
        s\<lparr>m_memadr := push_bit 16 (ucast (m_pcmregs s 3)) OR push_bit 8 (ucast (m_pcmregs s 4))
                         OR ucast data,
          m_pcmregs := (m_pcmregs s)(reg := data)\<rparr>
      else if reg = 0x06 then
        s\<lparr>m_space := (m_space s)(m_memadr s := data),
          m_memadr := (m_memadr s + 1) AND 0x3fffff,
          m_pcmregs := (m_pcmregs s)(reg := data)\<rparr>
      else if reg = 0xf8 then
        s\<lparr>m_fm_l := uint data AND 0x7, m_fm_r := drop_bit 3 (uint data) AND 0x7,
          m_pcmregs := (m_pcmregs s)(reg := data)\<rparr>
      else if reg = 0xf9 then
        s\<lparr>m_pcm_l := uint data AND 0x7, m_pcm_r := drop_bit 3 (uint data) AND 0x7,
          m_pcmregs := (m_pcmregs s)(reg := data)\<rparr>
      else s\<lparr>m_pcmregs := (m_pcmregs s)(reg := data)\<rparr>)"

text \<open>
  The wave-number registers.  The header address and its twelve bytes \<open>p[0] .. p[11]\<close>:
\<close>

definition wave_header_offset :: "'fm ymf278b_device \<Rightarrow> int \<Rightarrow> u32" where
  "wave_header_offset s w =
     (if w < 384 \<or> m_wavetblhdr s = 0 then word_of_int (w * 12)
      else m_wavetblhdr s * 0x80000 + word_of_int ((w - 384) * 12))"

definition wave_header :: "'fm ymf278b_device \<Rightarrow> int \<Rightarrow> nat \<Rightarrow> u8" where
  "wave_header s w i = read_byte s (wave_header_offset s w + of_nat i)"

text \<open>
  The five nested calls \<open>C_w(8 + snum + (i-2) * 24, p[i])\<close> for \<open>i = 7 .. 11\<close> address
  registers of the groups 5 to 9, so they never come back to case 0 and \<open>C_w_direct\<close>
  is what they run.
\<close>

definition C_w :: "'fm fm_engine \<Rightarrow> u8 \<Rightarrow> u8 \<Rightarrow> 'fm ymf278b_device \<Rightarrow> 'fm ymf278b_device" where
  "C_w fm reg data s =
     (if 0x08 \<le> reg \<and> reg \<le> 0xf7 \<and> (unat reg - 8) div 24 = 0 then
        (let snum = (unat reg - 8) mod 24;
             slot = m_slots s snum;
             slot1 = slot\<lparr>wave := (wave slot AND 0x100) OR uint data\<rparr>;
             p = wave_header s (wave slot1);
             slot2 = slot1\<lparr>bits := drop_bit 6 (uint (p 0) AND 0xc0),
                          startaddr := ucast (p 2) OR push_bit 8 (ucast (p 1))
                                         OR push_bit 16 (ucast (p 0) AND 0x3f),
                          loopaddr := push_bit 16 (ucast (p 4)) OR push_bit 24 (ucast (p 3)),
                          endaddr := ((push_bit 16 (ucast (p 6)) OR push_bit 24 (ucast (p 5)))
                                        - 0x00010000) XOR 0xffff0000\<rparr>;
             s1 = s\<lparr>m_slots := (m_slots s)(snum := slot2)\<rparr>;
             s2 = fold (\<lambda>i. C_w_direct (of_nat (8 + snum + (i - 2) * 24)) (p i)) [7 ..< 12] s1;
             s3 = s2\<lparr>m_fm := fm_set_reset_status fm STATUS_LD 0 (m_fm s2), m_timer_ld := Some 10\<rparr>;
             slot3 = m_slots s3 snum;
             slot4 = (if KEY_ON slot3 \<noteq> 0 then retrigger_sample slot3
                      else if active slot3 \<noteq> 0 then compute_envelope (slot3\<lparr>env_step := 5\<rparr>)
                      else slot3)
         in s3\<lparr>m_slots := (m_slots s3)(snum := slot4), m_pcmregs := (m_pcmregs s3)(reg := data)\<rparr>)
      else C_w_direct reg data s)"

subsection \<open>Sample fetch, mix and envelope stepping\<close>

text \<open>The pan tables are filled at start by integer formulas.\<close>

definition m_pan_left :: "int \<Rightarrow> int" where
  "m_pan_left i = (if i < 7 then i * 8 else if i < 9 then 256 else 0)"

definition m_pan_right :: "int \<Rightarrow> int" where
  "m_pan_right i = (if i < 8 then 0 else if i < 10 then 256 else (16 - i) * 8)"

text \<open>The first statement of the sample loop: the wrap of the position at the end address.\<close>

definition loop_wrap :: "YMF278BSlot \<Rightarrow> YMF278BSlot" where
  "loop_wrap slot =
     (if stepptr slot \<ge> ucast (endaddr slot)
      then slot\<lparr>stepptr := stepptr slot - ucast (endaddr slot) + ucast (loopaddr slot)\<rparr>
      else slot)"

text \<open>
  The sample read for the slot's word length, as the signed 16-bit value it is stored in.
  Addresses are cut to the 32 bits of \<open>read_byte\<close>'s argument.  \<open>sample\<close> is declared
  outside both loops, so a word-length code other than 0 to 3 would leave the previous
  value \<open>prev\<close> standing.
\<close>

definition fetch_sample :: "'fm ymf278b_device \<Rightarrow> YMF278BSlot \<Rightarrow> int \<Rightarrow> int" where
  "fetch_sample s slot prev =
     (let sp = stepptr slot;
          rd = (\<lambda>a :: u64. (ucast (read_byte s (ucast (ucast (startaddr slot) + a))) :: 16 word))
      in if bits slot = 0 then sint (push_bit 8 (rd (drop_bit 16 sp)))
         else if bits slot = 1 then
           (if sp AND 0x10000 \<noteq> 0
            then sint (push_bit 8 (rd (drop_bit 17 sp * 3 + 2)) OR (rd (drop_bit 17 sp * 3 + 1) AND 0xf0))
            else sint (push_bit 8 (rd (drop_bit 17 sp * 3))
                       OR (push_bit 4 (rd (drop_bit 17 sp * 3 + 1)) AND 0xf0)))
         else if bits slot = 2 then
           sint (push_bit 8 (rd (drop_bit 16 sp * 2)) OR rd (drop_bit 16 sp * 2 + 1))
         else if bits slot = 3 then 0
         else prev)"

text \<open>The "update envelope" part of the sample loop.\<close>

definition advance_envelope :: "YMF278BSlot \<Rightarrow> YMF278BSlot" where
  "advance_envelope slot =
     (let slot1 = slot\<lparr>env_vol := env_vol slot + env_vol_step slot\<rparr>
      in if 0 \<le> sint (env_vol slot1 - env_vol_lim slot1)
         then compute_envelope (slot1\<lparr>env_step := env_step slot1 + 1\<rparr>)
         else if preverb slot1 \<noteq> 0 \<and> env_preverb slot1 = 0 \<and> env_step slot1 \<noteq> 0
                 \<and> env_vol slot1 > push_bit 23 (6 * 8)
         then compute_envelope slot1
         else slot1)"

text \<open>
  One pass of the inner loop for output sample \<open>j\<close>: wrap, fetch, accumulate into the
  bus pair the routing bit \<open>CH\<close> selects (entries \<open>4j+2, 4j+3\<close> for DO1, \<open>4j, 4j+1\<close> for
  DO2), advance the position, step the envelope.  The state of the loop is the last
  sample value, the slot and the mix buffer.
\<close>

definition voice_sample ::
  "'fm ymf278b_device \<Rightarrow> nat \<Rightarrow> int \<times> YMF278BSlot \<times> (nat \<Rightarrow> int) \<Rightarrow> int \<times> YMF278BSlot \<times> (nat \<Rightarrow> int)" where
  "voice_sample s j st =
     (let (prev, slot0, mix) = st;
          slot1 = loop_wrap slot0;
          sample = fetch_sample s slot1 prev;
          ev = uint (drop_bit 23 (env_vol slot1));
          vl = (sample * m_volume s (nat (TL slot1 + m_pan_left (pan slot1) + ev))) div 2 ^ 17;
          vr = (sample * m_volume s (nat (TL slot1 + m_pan_right (pan slot1) + ev))) div 2 ^ 17;
          b = (if CH slot1 \<noteq> 0 then 4 * j + 2 else 4 * j);
          mix1 = mix(b := mix b + vl, b + 1 := mix (b + 1) + vr);
          slot2 = slot1\<lparr>stepptr := stepptr slot1 + ucast (step slot1)\<rparr>
      in (sample, advance_envelope slot2, mix1))"

text \<open>The body of the loop over the 24 slots: an inactive slot is skipped as a whole.\<close>

definition render_voice ::
  "'fm ymf278b_device \<Rightarrow> nat \<Rightarrow> int \<times> YMF278BSlot \<times> (nat \<Rightarrow> int) \<Rightarrow> int \<times> YMF278BSlot \<times> (nat \<Rightarrow> int)" where
  "render_voice s n st =
     (let (prev, slot, mix) = st
      in if active slot \<noteq> 0 then fold (voice_sample s) [0 ..< n] st else st)"

definition render_voices :: "'fm ymf278b_device \<Rightarrow> nat \<Rightarrow> (nat \<Rightarrow> YMF278BSlot) \<times> (nat \<Rightarrow> int)" where
  "render_voices s n =
     (let (prev, slots, mix) =
            fold (\<lambda>i (prev, slots, mix).
                    let (prev1, slot1, mix1) = render_voice s n (prev, slots i, mix)
                    in (prev1, slots(i := slot1), mix1))
                 [0 ..< 24] (0, m_slots s, \<lambda>k. 0)
      in (slots, mix))"

subsection \<open>FM clock resampler\<close>

text \<open>
  \<open>FM_STEP\<close> is the constant \<open>uint32_t((NOMINAL_FM_RATE / NOMINAL_OUTPUT_RATE - 1.0) * double(1 << 24))\<close>:
  with the FM rate \<open>clock/(19*36)\<close> and the output rate \<open>clock/768\<close> of the comment the
  ratio is \<open>768/684\<close>, and \<open>(768/684 - 1) * 2^24 = 2060359.86...\<close>.
\<close>

definition FM_STEP :: u32 where
  "FM_STEP = 2060359"

text \<open>
  One pass of the output loop on the accumulator and the FM engine, for a step \<open>S\<close>: the
  extra clock when bit 24 is set, the mask, and the clock every sample gets.
\<close>

definition fm_sample_step :: "'fm fm_engine \<Rightarrow> u32 \<Rightarrow> u32 \<times> 'fm \<Rightarrow> u32 \<times> 'fm" where
  "fm_sample_step fm S st =
     (let (pos, e) = st;
          pos1 = pos + S;
          (pos2, e1) = (if bit pos1 24 then (pos1 AND 0xffffff, fm_clock fm e) else (pos1, e))
      in (pos2, fm_clock fm e1))"

definition fm_resample :: "'fm fm_engine \<Rightarrow> u32 \<Rightarrow> nat \<Rightarrow> u32 \<times> 'fm \<Rightarrow> u32 \<times> 'fm" where
  "fm_resample fm S n st = (fm_sample_step fm S ^^ n) st"

text \<open>
  \<open>sound_stream_update\<close> for \<open>n\<close> output samples, on the device state: the mix buffer
  cleared and refilled by the voices, the slots advanced, the FM engine clocked.  The six
  floating-point output streams are not part of the model.
\<close>

definition sound_stream_update :: "'fm fm_engine \<Rightarrow> nat \<Rightarrow> 'fm ymf278b_device \<Rightarrow> 'fm ymf278b_device" where
  "sound_stream_update fm n s =
     (let (slots, mix) = render_voices s n;
          (pos, e) = fm_resample fm FM_STEP n (m_fm_pos s, m_fm s)
      in s\<lparr>m_slots := slots, m_mix_buffer := mix, m_fm_pos := pos, m_fm := e\<rparr>)"

subsection \<open>The bus interface\<close>

definition timer_busy_start :: "'fm fm_engine \<Rightarrow> bool \<Rightarrow> 'fm ymf278b_device \<Rightarrow> 'fm ymf278b_device" where
  "timer_busy_start fm is_pcm s =
     s\<lparr>m_fm := fm_set_reset_status fm STATUS_BUSY 0 (m_fm s),
       m_timer_busy := Some (if is_pcm then 88 else 56)\<rparr>"

text \<open>
  \<open>m_stream->update()\<close> brings the output stream up to the current time; \<open>pending\<close> is
  the number of output samples that are due at the moment of the write.
\<close>

definition write_port ::
  "'fm fm_engine \<Rightarrow> nat \<Rightarrow> u32 \<Rightarrow> u8 \<Rightarrow> 'fm ymf278b_device \<Rightarrow> 'fm ymf278b_device" where
  "write_port fm pending offset data s =
     (let sel = offset AND 7 in
      if sel = 0 \<or> sel = 2 then
        (timer_busy_start fm False s)\<lparr>m_port_AB := data, m_lastport := (if bit offset 1 then 1 else 0)\<rparr>
      else if sel = 1 \<or> sel = 3 then
        (let s1 = timer_busy_start fm False s;
             old = fm_new2flag fm (m_fm s1);
             s2 = s1\<lparr>m_fm := fm_write fm (ucast (m_port_AB s1) OR push_bit 8 (ucast (m_lastport s1)))
                                 data (m_fm s1)\<rparr>
         in if old = 0 \<and> fm_new2flag fm (m_fm s2) \<noteq> 0 then s2\<lparr>m_next_status_id := True\<rparr> else s2)
      else if sel = 4 then
        (timer_busy_start fm True s)\<lparr>m_port_C := data\<rparr>
      else if sel = 5 then
        (if fm_new2flag fm (m_fm s) = 0 then s
         else (let s1 = sound_stream_update fm pending s;
                   s2 = timer_busy_start fm True s1
               in C_w fm (m_port_C s2) data s2))
      else s)"

definition read_port :: "'fm fm_engine \<Rightarrow> u32 \<Rightarrow> 'fm ymf278b_device \<Rightarrow> u8 \<times> 'fm ymf278b_device" where
  "read_port fm offset s =
     (let sel = offset AND 7 in
      if sel = 0 then
        (let ret = fm_status fm (m_fm s) in
         if fm_new2flag fm (m_fm s) = 0
         then (let ret1 = ret AND NOT (STATUS_BUSY OR STATUS_LD)
               in (if fm_newflag fm (m_fm s) = 0 then ret1 OR 0x06 else ret1, s))
         else if m_next_status_id s then (ret OR 0x02, s\<lparr>m_next_status_id := False\<rparr>)
         else (ret, s))
      else if sel = 1 \<or> sel = 3 then
        (fm_regs_read fm (m_fm s) (ucast (m_port_AB s) OR push_bit 8 (ucast (m_lastport s))), s)
      else if sel = 5 then
        (if fm_new2flag fm (m_fm s) = 0 then (0, s)
         else if m_port_C s = 2 then ((m_pcmregs s (m_port_C s) AND 0x1f) OR 0x20, s)
         else if m_port_C s = 6
         then (read_byte s (m_memadr s), s\<lparr>m_memadr := (m_memadr s + 1) AND 0x3fffff\<rparr>)
         else (m_pcmregs s (m_port_C s), s))
      else (0, s))"

subsection \<open>Reset\<close>

definition reset_slot :: "YMF278BSlot \<Rightarrow> YMF278BSlot" where
  "reset_slot slot =
     compute_envelope
       (slot\<lparr>LFO := 0, VIB := 0, AR := 0, D1R := 0, DL := 0, D2R := 0, RC := 0, RR := 0, AM := 0,
             startaddr := 0, loopaddr := 0, endaddr := 0, env_step := 5\<rparr>)"

definition device_reset :: "'fm fm_engine \<Rightarrow> 'fm ymf278b_device \<Rightarrow> 'fm ymf278b_device" where
  "device_reset fm s =
     (let s1 = fold (\<lambda>i. C_w fm (of_nat i) 0) [0 ..< 8] s;
          s2 = fold (\<lambda>i. C_w fm (of_nat i) 0) (rev [8 ..< 256]) s1;
          s3 = C_w fm 0xf8 0x1b s2;
          s4 = s3\<lparr>m_port_AB := 0, m_port_C := 0, m_lastport := 0, m_next_status_id := False,
                  m_memadr := 0\<rparr>;
          s5 = s4\<lparr>m_slots := (\<lambda>i. if i < 24 then reset_slot (m_slots s4 i) else m_slots s4 i)\<rparr>
      in s5\<lparr>m_timer_busy := None, m_timer_ld := None, m_fm := fm_reset fm (m_fm s5)\<rparr>)"

subsection \<open>Timers and clock change\<close>

text \<open>
  The two timer callbacks clear a status bit of the FM engine.  \<open>device_clock_changed\<close>
  restarts the FM resampler; the clock, the sample rate and the size of the mix buffer are
  outside the model.
\<close>

datatype device_timer_id = TIMER_BUSY_CLEAR | TIMER_LD_CLEAR

definition device_timer :: "'fm fm_engine \<Rightarrow> device_timer_id \<Rightarrow> 'fm ymf278b_device \<Rightarrow> 'fm ymf278b_device" where
  "device_timer fm tid s =
     (case tid of
        TIMER_BUSY_CLEAR \<Rightarrow> s\<lparr>m_fm := fm_set_reset_status fm 0 STATUS_BUSY (m_fm s)\<rparr>
      | TIMER_LD_CLEAR \<Rightarrow> s\<lparr>m_fm := fm_set_reset_status fm 0 STATUS_LD (m_fm s)\<rparr>)"

definition device_clock_changed :: "'fm ymf278b_device \<Rightarrow> 'fm ymf278b_device" where
  "device_clock_changed s = s\<lparr>m_fm_pos := 0\<rparr>"

text \<open>
  The states the chip can be in: after a reset from any state, and from there by port
  writes, port reads, stream updates (\<open>rom_bank_updated\<close> is one), timer callbacks and
  clock changes.
\<close>

inductive reachable :: "'fm fm_engine \<Rightarrow> 'fm ymf278b_device \<Rightarrow> bool" for fm where
  reach_reset: "reachable fm (device_reset fm s)"
| reach_write: "reachable fm s \<Longrightarrow> reachable fm (write_port fm pending offset data s)"
| reach_read: "reachable fm s \<Longrightarrow> reachable fm (snd (read_port fm offset s))"
| reach_update: "reachable fm s \<Longrightarrow> reachable fm (sound_stream_update fm n s)"
| reach_timer: "reachable fm s \<Longrightarrow> reachable fm (device_timer fm tid s)"
| reach_clock: "reachable fm s \<Longrightarrow> reachable fm (device_clock_changed s)"

subsection \<open>Auxiliary notions for the properties\<close>

text \<open>
  An FM engine that only counts its clocks (the state is the number of \<open>clock\<close> calls),
  with the NEW2 flag fixed to a given value; and the clocks it receives beyond the one per
  output sample.
\<close>

definition counting_engine :: "u32 \<Rightarrow> nat fm_engine" where
  "counting_engine new2 =
     \<lparr>fm_new2flag = (\<lambda>e. new2), fm_newflag = (\<lambda>e. 0), fm_write = (\<lambda>a d e. e),
      fm_regs_read = (\<lambda>e a. 0), fm_status = (\<lambda>e. 0), fm_set_reset_status = (\<lambda>a b e. e),
      fm_clock = Suc, fm_reset = (\<lambda>e. 0)\<rparr>"

definition extra_clocks :: "u32 \<Rightarrow> nat \<Rightarrow> nat" where
  "extra_clocks S n = snd (fm_resample (counting_engine 1) S n (0, 0)) - n"

text \<open>
  \<open>compute_envelope\<close> touches the six envelope members only: the other members are
  as before (\<open>same_voice\<close>).  \<open>env_effect\<close> says what it does to the envelope: a
  terminal step (3 or 5) switches the voice off and parks the envelope; any other step
  leaves \<open>active\<close> alone and ends in a step that is not terminal.
\<close>

definition same_voice :: "YMF278BSlot \<Rightarrow> YMF278BSlot \<Rightarrow> bool" where
  "same_voice sl sl' \<longleftrightarrow>
     wave sl' = wave sl \<and> F_NUMBER sl' = F_NUMBER sl \<and> octave sl' = octave sl
     \<and> preverb sl' = preverb sl \<and> DAMP sl' = DAMP sl \<and> CH sl' = CH sl \<and> LD sl' = LD sl
     \<and> TL sl' = TL sl \<and> pan sl' = pan sl \<and> LFO sl' = LFO sl \<and> VIB sl' = VIB sl
     \<and> AM sl' = AM sl \<and> AR sl' = AR sl \<and> D1R sl' = D1R sl \<and> DL sl' = DL sl
     \<and> D2R sl' = D2R sl \<and> RC sl' = RC sl \<and> RR sl' = RR sl \<and> step sl' = step sl
     \<and> stepptr sl' = stepptr sl \<and> KEY_ON sl' = KEY_ON sl \<and> bits sl' = bits sl
     \<and> startaddr sl' = startaddr sl \<and> loopaddr sl' = loopaddr sl \<and> endaddr sl' = endaddr sl"

definition env_effect :: "YMF278BSlot \<Rightarrow> YMF278BSlot \<Rightarrow> bool" where
  "env_effect sl sl' \<longleftrightarrow>
     same_voice sl sl'
     \<and> (if env_step sl = 3 \<or> env_step sl = 5
         then active sl' = 0 \<and> env_step sl' = env_step sl \<and> env_vol sl' = push_bit 23 256
              \<and> env_vol_lim sl' = 0 \<and> env_vol_step sl' = 0
         else active sl' = active sl \<and> env_step sl' \<noteq> 3 \<and> env_step sl' \<noteq> 5
              \<and> (env_step sl' = env_step sl
                    \<or> env_step sl = 0 \<and> (env_step sl' = 1 \<or> env_step sl' = 2)
                    \<or> env_step sl = 1 \<and> env_step sl' = 2))"

text \<open>
  The invariant behind the \<open>active\<close> flag.  \<open>live_ok\<close>: a slot is active exactly when
  its octave is not the mute value 8 and its envelope is in neither terminal step.
  \<open>octave_of\<close> is the octave field of a data byte, and \<open>chip_inv\<close> adds that every
  slot's octave is the one last written to its octave register \<open>0x38 + i\<close>, which is what
  the \<open>data != m_pcmregs[reg]\<close> test of case 2 relies on.  \<open>parked\<close> is the envelope
  as the terminal steps leave it.
\<close>

definition live_ok :: "YMF278BSlot \<Rightarrow> bool" where
  "live_ok sl \<longleftrightarrow> ((active sl \<noteq> 0) = (octave sl \<noteq> 8 \<and> env_step sl \<noteq> 3 \<and> env_step sl \<noteq> 5))"

definition octave_of :: "u8 \<Rightarrow> int" where
  "octave_of data = drop_bit 4 (uint data AND 0xf0)"

definition octave_tied :: "nat \<Rightarrow> 'fm ymf278b_device \<Rightarrow> bool" where
  "octave_tied i s \<longleftrightarrow> octave (m_slots s i) = octave_of (m_pcmregs s (of_nat (56 + i)))"

definition chip_inv :: "'fm ymf278b_device \<Rightarrow> bool" where
  "chip_inv s \<longleftrightarrow> list_all (\<lambda>i. live_ok (m_slots s i) \<and> octave_tied i s) [0 ..< 24]"

definition parked :: "YMF278BSlot \<Rightarrow> bool" where
  "parked sl \<longleftrightarrow> active sl = 0 \<and> (env_step sl = 3 \<or> env_step sl = 5)
     \<and> env_vol sl = push_bit 23 256 \<and> env_vol_step sl = 0 \<and> env_vol_lim sl = 0"

definition playing :: "YMF278BSlot \<Rightarrow> bool" where
  "playing sl \<longleftrightarrow> active sl \<noteq> 0 \<and> env_step sl \<noteq> 3 \<and> env_step sl \<noteq> 5"

text \<open>
  \<open>slot_reg snum k\<close> is the register of parameter group \<open>k\<close> (0 to 9) of slot
  \<open>snum\<close>.  \<open>env_drift a b\<close> relates a slot before and after register writes that may
  re-evaluate the envelope but never retrigger: an inactive voice stays as it is, an
  active one stays active or ends in a terminal step.
\<close>

definition slot_reg :: "nat \<Rightarrow> nat \<Rightarrow> u8" where
  "slot_reg snum k = of_nat (8 + snum + 24 * k)"

definition env_drift :: "YMF278BSlot \<Rightarrow> YMF278BSlot \<Rightarrow> bool" where
  "env_drift a b \<longleftrightarrow>
     (if active a = 0 then active b = 0 \<and> env_step b = env_step a
      else if env_step a = 3 \<or> env_step a = 5
      then (active b = 0 \<and> env_step b = env_step a) \<or> (active b = active a \<and> env_step b = env_step a)
      else active b = active a \<and> env_step b \<noteq> 3 \<and> env_step b \<noteq> 5)"

text \<open>
  The body of the loop over the slots of \<open>sound_stream_update\<close> as a function of the
  slot number, on the last sample value, the slot array and the mix buffer; and the same
  loop with slot \<open>i\<close> left out.
\<close>

definition render_slot ::
  "'fm ymf278b_device \<Rightarrow> nat \<Rightarrow> nat \<Rightarrow> int \<times> (nat \<Rightarrow> YMF278BSlot) \<times> (nat \<Rightarrow> int)
     \<Rightarrow> int \<times> (nat \<Rightarrow> YMF278BSlot) \<times> (nat \<Rightarrow> int)" where
  "render_slot s n i st =
     (let (prev, slots, mix) = st;
          (prev1, slot1, mix1) = render_voice s n (prev, slots i, mix)
      in (prev1, slots(i := slot1), mix1))"

definition render_voices_without ::
  "nat \<Rightarrow> 'fm ymf278b_device \<Rightarrow> nat \<Rightarrow> (nat \<Rightarrow> YMF278BSlot) \<times> (nat \<Rightarrow> int)" where
  "render_voices_without i s n =
     (let (prev, slots, mix) =
            fold (render_slot s n) (filter (\<lambda>k. k \<noteq> i) [0 ..< 24]) (0, m_slots s, \<lambda>k. 0)
      in (slots, mix))"

text \<open>
  A chip with every member zero (all voices off, empty wave memory), to run the model on
  concrete register writes.
\<close>

definition blank_slot :: YMF278BSlot where
  "blank_slot =
     \<lparr>wave = 0, F_NUMBER = 0, octave = 0, preverb = 0, DAMP = 0, CH = 0, LD = 0, TL = 0, pan = 0,
      LFO = 0, VIB = 0, AM = 0, AR = 0, D1R = 0, DL = 0, D2R = 0, RC = 0, RR = 0, step = 0,
      stepptr = 0, active = 0, KEY_ON = 0, bits = 0, startaddr = 0, loopaddr = 0, endaddr = 0,
      env_step = 5, env_vol = 0, env_vol_step = 0, env_vol_lim = 0, env_preverb = 0\<rparr>"

definition blank_chip :: "nat ymf278b_device" where
  "blank_chip =
     \<lparr>m_fm = 0, m_slots = (\<lambda>i. blank_slot), m_pcmregs = (\<lambda>r. 0), m_wavetblhdr = 0,
      m_memmode = 0, m_memadr = 0, m_fm_l = 0, m_fm_r = 0, m_pcm_l = 0, m_pcm_r = 0,
      m_fm_pos = 0, m_port_AB = 0, m_port_C = 0, m_lastport = 0, m_next_status_id = False,
      m_space = (\<lambda>a. 0), m_timer_busy = None, m_timer_ld = None, m_volume = (\<lambda>i. 0),
      m_mix_buffer = (\<lambda>k. 0)\<rparr>"

section \<open>Properties of the machine glue\<close>

subsection \<open>Interrupt arbiter\<close>

lemma set_input_line_simps:
  "input_line (set_input_line l st c) = (input_line c)(l := st)"
  "line_events (set_input_line l st c) = line_events c @ [(l, st)]"
  by (simp_all add: set_input_line_def)

lemma field_interrupts_inputs:
  "m_scc_interrupt (field_interrupts s) = m_scc_interrupt s"
  "m_scsi_interrupt (field_interrupts s) = m_scsi_interrupt s"
  "m_via_interrupt (field_interrupts s) = m_via_interrupt s"
  by (simp_all add: field_interrupts_def Let_def)

lemma field_interrupts_last_taken:
  "m_last_taken_interrupt (field_interrupts s) =
     (if - 1 < irq_level s then irq_level s
      else if - 1 < m_last_taken_interrupt s then - 1 else m_last_taken_interrupt s)"
  by (simp add: field_interrupts_def irq_level_def Let_def)

lemma field_interrupts_asserted:
  assumes "lines_tracked s"
  shows "asserted_lines (field_interrupts s) = (if - 1 < irq_level s then {irq_level s} else {})"
  using assms
  by (auto simp: lines_tracked_def asserted_lines_def field_interrupts_def irq_level_def
      Let_def set_input_line_simps)

lemma field_interrupts_events:
  "line_events (m_maincpu (field_interrupts s)) =
     line_events (m_maincpu s)
       @ (if - 1 < m_last_taken_interrupt s then [(m_last_taken_interrupt s, CLEAR_LINE)] else [])
       @ (if - 1 < irq_level s then [(irq_level s, ASSERT_LINE)] else [])"
  by (simp add: field_interrupts_def irq_level_def Let_def set_input_line_simps)

lemma field_interrupts_tracked:
  assumes "lines_tracked s"
  shows "lines_tracked (field_interrupts s)"
proof -
  have "asserted_lines (field_interrupts s) \<subseteq> {l. l = irq_level s \<and> - 1 < l}"
    using field_interrupts_asserted [OF assms] by auto
  then show ?thesis
    by (auto simp: lines_tracked_def asserted_lines_def field_interrupts_last_taken)
qed

lemma lines_tracked_input_update:
  "lines_tracked (s\<lparr>m_scc_interrupt := v\<rparr>) = lines_tracked s"
  "lines_tracked (s\<lparr>m_via_interrupt := v\<rparr>) = lines_tracked s"
  by (simp_all add: lines_tracked_def)

text \<open>
  C3.  Whenever an interrupt input changes (the SCC or VIA callback stores the new level
  and runs the arbiter; the SCSI level has no callback and is read as stored), and the
  only line asserted beforehand is the one the arbiter recorded, then afterwards exactly
  level 2 is asserted if the SCC or SCSI input is set, else exactly level 1 if the VIA
  input is set, else no line at all.  The calls made on the CPU are, in this order, a
  clear of the previously recorded line (when there is one) and then the assert of the
  new level (when there is one), so never two levels are asserted together.
\<close>

theorem field_interrupts_priority:
  assumes "lines_tracked s"
    and "s' = field_interrupts s \<or> s' = set_scc_interrupt v s \<or> s' = set_via_interrupt v s"
  shows "asserted_lines s' =
           (if m_scc_interrupt s' \<noteq> 0 \<or> m_scsi_interrupt s' \<noteq> 0 then {2}
            else if m_via_interrupt s' \<noteq> 0 then {1} else {})
         \<and> line_events (m_maincpu s') =
             line_events (m_maincpu s)
               @ (if - 1 < m_last_taken_interrupt s then [(m_last_taken_interrupt s, CLEAR_LINE)] else [])
               @ (if m_scc_interrupt s' \<noteq> 0 \<or> m_scsi_interrupt s' \<noteq> 0 then [(2, ASSERT_LINE)]
                  else if m_via_interrupt s' \<noteq> 0 then [(1, ASSERT_LINE)] else [])
         \<and> lines_tracked s'"
proof -
  obtain t where t: "s' = field_interrupts t" "lines_tracked t"
    "m_maincpu t = m_maincpu s" "m_last_taken_interrupt t = m_last_taken_interrupt s"
    using assms
    by (auto simp: set_scc_interrupt_def set_via_interrupt_def lines_tracked_input_update)
  have lvl: "irq_level t =
      (if m_scc_interrupt s' \<noteq> 0 \<or> m_scsi_interrupt s' \<noteq> 0 then 2
       else if m_via_interrupt s' \<noteq> 0 then 1 else - 1)"
    by (simp add: t(1) field_interrupts_inputs irq_level_def)
  have "asserted_lines s' = (if - 1 < irq_level t then {irq_level t} else {})"
    unfolding t(1) by (rule field_interrupts_asserted [OF t(2)])
  moreover have "line_events (m_maincpu s') =
     line_events (m_maincpu s)
       @ (if - 1 < m_last_taken_interrupt s then [(m_last_taken_interrupt s, CLEAR_LINE)] else [])
       @ (if - 1 < irq_level t then [(irq_level t, ASSERT_LINE)] else [])"
    unfolding t(1) field_interrupts_events t(3) t(4) by (rule refl)
  moreover have "lines_tracked s'"
    unfolding t(1) by (rule field_interrupts_tracked [OF t(2)])
  ultimately show ?thesis
    unfolding lvl by simp
qed

lemma cold_machine_tracked: "lines_tracked (machine_reset cold_machine)"
  by (simp add: lines_tracked_def machine_reset_def cold_machine_def cold_cpu_def)

theorem field_interrupts_priority_witness:
  "asserted_lines (set_via_interrupt 1 (machine_reset cold_machine)) = {1}
   \<and> line_events (m_maincpu (set_via_interrupt 1 (machine_reset cold_machine)))
       = [(0, CLEAR_LINE), (1, ASSERT_LINE)]
   \<and> asserted_lines (set_scc_interrupt 1 (set_via_interrupt 1 (machine_reset cold_machine))) = {2}
   \<and> line_events (m_maincpu (set_scc_interrupt 1 (set_via_interrupt 1 (machine_reset cold_machine))))
       = [(0, CLEAR_LINE), (1, ASSERT_LINE), (1, CLEAR_LINE), (2, ASSERT_LINE)]"
proof -
  let ?s0 = "machine_reset cold_machine"
  let ?s1 = "set_via_interrupt 1 ?s0"
  let ?s2 = "set_scc_interrupt 1 ?s1"
  have f1: "m_scc_interrupt ?s1 = 0" "m_scsi_interrupt ?s1 = 0" "m_via_interrupt ?s1 = 1"
    "m_last_taken_interrupt ?s0 = 0" "line_events (m_maincpu ?s0) = []"
    by (simp_all add: set_via_interrupt_def field_interrupts_inputs machine_reset_def
        cold_machine_def cold_cpu_def)
  have a: "asserted_lines ?s1 = {1} \<and> line_events (m_maincpu ?s1) = [(0, CLEAR_LINE), (1, ASSERT_LINE)]
      \<and> lines_tracked ?s1"
    using field_interrupts_priority [OF cold_machine_tracked, of ?s1 1] f1 by simp
  have f2: "m_scc_interrupt ?s2 = 1" "m_last_taken_interrupt ?s1 = 1"
    by (simp_all add: set_scc_interrupt_def set_via_interrupt_def field_interrupts_inputs
        field_interrupts_last_taken irq_level_def machine_reset_def cold_machine_def)
  have tr: "lines_tracked ?s1" using a by simp
  have b: "asserted_lines ?s2 = {2} \<and> line_events (m_maincpu ?s2) =
      line_events (m_maincpu ?s1) @ [(1, CLEAR_LINE), (2, ASSERT_LINE)]"
    using field_interrupts_priority [OF tr, of ?s2 1] f2 by simp
  show ?thesis using a b by simp
qed

subsection \<open>RAM window writes\<close>

text \<open>
  C4.  On the maps of the base machines (128K/512K/512KE and Plus) a write to the low
  window changes nothing at all while the overlay is active and stores into
  \<open>RAM[offset AND ram_mask]\<close> (under the byte-lane mask) when it is not; on the SE map
  every write clears the overlay and stores, whatever the overlay was.
\<close>

theorem ram_window_write:
  "(m \<noteq> MACSE_MAP \<and> m_overlay s \<noteq> 0 \<longrightarrow> low_window_w m offset data mem_mask s = s)
   \<and> (m \<noteq> MACSE_MAP \<and> m_overlay s = 0 \<longrightarrow>
        low_window_w m offset data mem_mask s =
          s\<lparr>m_ram_ptr := (m_ram_ptr s)(offset AND m_ram_mask s :=
               COMBINE_DATA (m_ram_ptr s (offset AND m_ram_mask s)) data mem_mask)\<rparr>)
   \<and> low_window_w MACSE_MAP offset data mem_mask s =
        s\<lparr>m_overlay := 0,
          m_ram_ptr := (m_ram_ptr s)(offset AND m_ram_mask s :=
               COMBINE_DATA (m_ram_ptr s (offset AND m_ram_mask s)) data mem_mask)\<rparr>"
  by (cases m) (simp_all add: low_window_w_def ram_w_def ram_w_se_def)

theorem ram_window_write_witness:
  "m_overlay (machine_reset cold_machine) \<noteq> 0
   \<and> low_window_w MACPLUS_MAP 0x80005 0x1234 0xffff (machine_reset cold_machine)
       = machine_reset cold_machine
   \<and> m_overlay (cold_machine :: unit mac128_state) = 0
   \<and> m_ram_ptr (low_window_w MAC512KE_MAP 0x80005 0x1234 0xff00 cold_machine) 5 = 0x1200
   \<and> m_overlay (low_window_w MACSE_MAP 0x80005 0x1234 0xffff (machine_reset cold_machine)) = 0
   \<and> m_ram_ptr (low_window_w MACSE_MAP 0x80005 0x1234 0xffff (machine_reset cold_machine)) 5 = 0x1234"
proof -
  have ov: "m_overlay (machine_reset cold_machine :: unit mac128_state) \<noteq> 0"
    "m_overlay (cold_machine :: unit mac128_state) = 0"
    by (simp_all add: machine_reset_def cold_machine_def)
  have msk: "(0x80005 :: 32 word) AND m_ram_mask (machine_reset cold_machine :: unit mac128_state) = 5"
    "(0x80005 :: 32 word) AND m_ram_mask (cold_machine :: unit mac128_state) = 5"
    by (simp_all add: machine_reset_def cold_machine_def)
  have old: "m_ram_ptr (machine_reset cold_machine :: unit mac128_state) 5 = 0"
    "m_ram_ptr (cold_machine :: unit mac128_state) 5 = 0"
    by (simp_all add: machine_reset_def cold_machine_def)
  have cd: "COMBINE_DATA 0 0x1234 0xff00 = 0x1200" "COMBINE_DATA 0 0x1234 0xffff = 0x1234"
    by (simp_all add: COMBINE_DATA_def)
  show ?thesis
    using ram_window_write [of MACPLUS_MAP "machine_reset cold_machine" "0x80005" "0x1234" "0xffff"]
      ram_window_write [of MAC512KE_MAP cold_machine "0x80005" "0x1234" "0xff00"]
      ov
    by (simp add: msk old cd)
qed

subsection \<open>VIA bus synchronisation\<close>

lemma minus_one_64: "(- 1 :: 64 word) = 0xFFFFFFFFFFFFFFFF"
  by simp

lemma sint_cut_small:
  assumes "k \<le> 11"
  shows "sint (ucast (- (of_nat k) :: 64 word) :: 32 word) = - int k"
proof -
  have "k \<in> {0,1,2,3,4,5,6,7,8,9,10,11}" using assms by (simp; arith)
  moreover have "sint (ucast (- 1 :: 64 word) :: 32 word) = - 1"
    unfolding minus_one_64 by simp
  ultimately show ?thesis by auto
qed

lemma via_start_unat:
  fixes c :: "64 word"
  assumes "unat c + 11 < 2 ^ 64"
  shows "unat ((c + 11) div 10 * 10) = (unat c + 11) div 10 * 10"
proof -
  have a: "unat (c + 11) = unat c + 11"
    using assms by (simp add: unat_word_ariths)
  have b: "unat ((c + 11) div 10) = (unat c + 11) div 10"
    by (simp only: unat_div a) simp
  have lt: "(unat c + 11) div 10 * 10 < 2 ^ 64" using assms by simp
  have "unat ((c + 11) div 10 * 10) = (unat ((c + 11) div 10) * 10) mod 2 ^ 64"
    by (simp add: unat_word_ariths)
  also have "\<dots> = ((unat c + 11) div 10 * 10) mod 2 ^ 64"
    by (simp only: b)
  also have "\<dots> = (unat c + 11) div 10 * 10"
    using lt by (rule mod_less)
  finally show ?thesis .
qed

lemma via_sync_delta_eq:
  fixes c :: "64 word"
  assumes "unat c + 11 < 2 ^ 64"
  shows "via_sync_delta c = int (unat c) - int ((unat c + 11) div 10 * 10)"
proof -
  let ?st = "(c + 11) div 10 * 10"
  define k where "k = (unat c + 11) div 10 * 10 - unat c"
  have k: "k \<le> 11" "unat c + k = (unat c + 11) div 10 * 10" unfolding k_def by arith+
  have "unat (c + of_nat k) = unat ?st"
    using k assms by (simp add: via_start_unat unat_word_ariths unat_of_nat)
  then have st: "?st = c + of_nat k" by (simp add: word_unat_eq_iff)
  then have d: "c - ?st = - of_nat k" by simp
  have vd: "via_sync_delta c = sint (ucast (c - ?st) :: 32 word)"
    by (simp add: via_sync_delta_def Let_def add.assoc)
  have "int (unat c) + int k = int ((unat c + 11) div 10 * 10)"
    by (simp only: k(2) flip: of_nat_add)
  then have "- int k = int (unat c) - int ((unat c + 11) div 10 * 10)"
    by linarith
  then show ?thesis
    unfolding vd d sint_cut_small [OF k(1)] .
qed

lemma total_cycles_adjust:
  "total_cycles (adjust_icount d c) = total_cycles c - word_of_int d"
  by (simp add: total_cycles_def adjust_icount_def)

lemma via_sync_cycles:
  fixes s :: "'via mac128_state"
  assumes "unat (total_cycles (m_maincpu s)) + 11 < 2 ^ 64"
  shows "unat (total_cycles (m_maincpu (via_sync s)))
           = (unat (total_cycles (m_maincpu s)) + 11) div 10 * 10"
proof -
  let ?c = "total_cycles (m_maincpu s)"
  let ?t = "(unat ?c + 11) div 10 * 10"
  have "total_cycles (m_maincpu (via_sync s)) = ?c - word_of_int (via_sync_delta ?c)"
    by (simp add: via_sync_def total_cycles_adjust)
  also have "\<dots> = ?c - (word_of_nat (unat ?c) - word_of_nat ?t)"
    by (simp add: via_sync_delta_eq [OF assms])
  also have "\<dots> = word_of_nat ?t" by simp
  finally have "unat (total_cycles (m_maincpu (via_sync s))) = ?t mod 2 ^ 64"
    by (simp only: unat_of_nat) simp
  moreover have "?t < 2 ^ 64" using assms by simp
  ultimately show ?thesis by simp
qed

lemma mac_via_r_cpu:
  "m_maincpu (snd (mac_via_r via_read offset s)) = adjust_icount (- 4) (m_maincpu (via_sync s))"
  by (simp add: mac_via_r_def via_sync_end_def Let_def split: prod.split)

lemma mac_via_w_cpu:
  "m_maincpu (mac_via_w via_write offset data s) = adjust_icount (- 4) (m_maincpu (via_sync s))"
  by (simp add: mac_via_w_def via_sync_end_def Let_def)

lemma four_more_cycles:
  fixes c :: m68000_device
  assumes "unat (total_cycles c) + 4 < 2 ^ 64"
  shows "unat (total_cycles (adjust_icount (- 4) c)) = unat (total_cycles c) + 4"
proof -
  have "total_cycles (adjust_icount (- 4) c) = total_cycles c + 4"
    by (simp add: total_cycles_adjust)
  then show ?thesis using assms by (simp add: unat_word_ariths)
qed

lemma access_end_room:
  fixes c :: nat
  assumes "c + 11 < 2 ^ 64"
  shows "(c + 11) div 10 * 10 + 4 < 2 ^ 64"
proof -
  define k where "k = (c + 11) div 10"
  have "k * 10 \<le> c + 11" unfolding k_def by simp
  then have "k * 10 < 1844674407370955162 * 10" using assms by simp
  then have "k < 1844674407370955162" by (simp only: mult_less_cancel2)
  then have "k \<le> 1844674407370955161" by simp
  then have "k * 10 \<le> 1844674407370955161 * 10" by (simp only: mult_le_mono1)
  then show ?thesis unfolding k_def [symmetric] by simp
qed

text \<open>
  C5.  Let \<open>c\<close> be the CPU's cycle count when a VIA register access starts.  The
  locals of \<open>via_sync\<close> are 64-bit, so the sum \<open>vpa_cycle + 9 = c + 11\<close> must fit the
  counter (\<open>c + 11 < 2^64\<close>); this is the only side condition.  \<open>via_sync\<close> lowers the
  remaining-cycle budget by exactly the distance to \<open>t\<close>, the least multiple of 10 that
  is at least \<open>c + 2\<close>, so the counter reads \<open>t\<close>; the amount depends on \<open>c\<close> only;
  and after the access, read or write alike, the counter reads \<open>t + 4\<close>.
\<close>

theorem via_access_cycles:
  fixes s :: "'via mac128_state"
  assumes "unat (total_cycles (m_maincpu s)) + 11 < 2 ^ 64"
  shows "let c = unat (total_cycles (m_maincpu s));
             t = unat (total_cycles (m_maincpu (via_sync s)))
         in t = (c + 11) div 10 * 10
          \<and> t mod 10 = 0 \<and> c + 2 \<le> t \<and> t < c + 12
          \<and> via_sync_delta (total_cycles (m_maincpu s)) = int c - int t
          \<and> m_icount (m_maincpu (via_sync s)) = m_icount (m_maincpu s) - (int t - int c)
          \<and> unat (total_cycles (m_maincpu (snd (mac_via_r via_read offset s)))) = t + 4
          \<and> unat (total_cycles (m_maincpu (mac_via_w via_write offset data s))) = t + 4"
proof -
  let ?c = "unat (total_cycles (m_maincpu s))"
  let ?t = "unat (total_cycles (m_maincpu (via_sync s)))"
  have small: "?c + 11 < 2 ^ 64" by (rule assms)
  have t: "?t = (?c + 11) div 10 * 10" by (rule via_sync_cycles [OF small])
  have shape: "?t mod 10 = 0" "?c + 2 \<le> ?t" "?t < ?c + 12" unfolding t by arith+
  have d: "via_sync_delta (total_cycles (m_maincpu s)) = int ?c - int ?t"
    unfolding t by (rule via_sync_delta_eq [OF small])
  have ic: "m_icount (m_maincpu (via_sync s)) = m_icount (m_maincpu s) - (int ?t - int ?c)"
  proof -
    have "m_icount (m_maincpu (via_sync s))
        = m_icount (m_maincpu s) + via_sync_delta (total_cycles (m_maincpu s))"
      by (simp add: via_sync_def adjust_icount_def)
    then show ?thesis unfolding d by linarith
  qed
  have room: "?t + 4 < 2 ^ 64" unfolding t by (rule access_end_room [OF small])
  have r: "unat (total_cycles (m_maincpu (snd (mac_via_r via_read offset s)))) = ?t + 4"
    unfolding mac_via_r_cpu by (rule four_more_cycles [OF room])
  have w: "unat (total_cycles (m_maincpu (mac_via_w via_write offset data s))) = ?t + 4"
    unfolding mac_via_w_cpu by (rule four_more_cycles [OF room])
  show ?thesis
    unfolding Let_def using t shape d ic r w by blast
qed

lemma machine_at_cycle_total: "total_cycles (m_maincpu (machine_at_cycle c)) = c"
  by (simp add: machine_at_cycle_def cold_cpu_def total_cycles_def)

theorem via_access_cycles_witness:
  "unat (total_cycles (m_maincpu (machine_at_cycle 13))) + 11 < 2 ^ 64
   \<and> unat (total_cycles (m_maincpu (via_sync (machine_at_cycle 13)))) = 20
   \<and> m_icount (m_maincpu (via_sync (machine_at_cycle 13))) = - 7
   \<and> unat (total_cycles (m_maincpu (snd (mac_via_r (\<lambda>v r. (0, v)) 0 (machine_at_cycle 13))))) = 24
   \<and> unat (total_cycles (m_maincpu (mac_via_w (\<lambda>v r d. v) 0 0 (machine_at_cycle 13)))) = 24"
proof -
  let ?s = "machine_at_cycle 13"
  have h: "unat (total_cycles (m_maincpu ?s)) + 11 < 2 ^ 64"
    by (simp add: machine_at_cycle_total)
  have i: "m_icount (m_maincpu ?s) = 0"
    by (simp add: machine_at_cycle_def cold_cpu_def)
  note th = via_access_cycles [OF h, of "\<lambda>v r. (0, v)" 0 "\<lambda>v r d. v" 0, unfolded Let_def]
  have c: "unat (total_cycles (m_maincpu ?s)) = 13"
    by (simp add: machine_at_cycle_total)
  have t: "unat (total_cycles (m_maincpu (via_sync ?s))) = 20"
    using th unfolding c by simp
  have "m_icount (m_maincpu (via_sync ?s)) = 0 - (int 20 - int 13)"
    using th unfolding c t i by blast
  then have ic: "m_icount (m_maincpu (via_sync ?s)) = - 7" by simp
  have r: "unat (total_cycles (m_maincpu (snd (mac_via_r (\<lambda>v r. (0, v)) 0 ?s)))) = 20 + 4"
    using th unfolding t by blast
  have w: "unat (total_cycles (m_maincpu (mac_via_w (\<lambda>v r d. v) 0 0 ?s))) = 20 + 4"
    using th unfolding t by blast
  show ?thesis using h t ic r w by simp
qed

text \<open>
  The side condition excludes the last eleven counts of the 64-bit counter only, which a
  counter that starts at zero does not reach in any run of the machine.  There the sum
  \<open>vpa_cycle + 9\<close> wraps: from cycle \<open>2^64 - 6\<close> (a multiple of 10) the budget would be
  lowered by 6.
\<close>

lemma via_sync_at_counter_end:
  "total_cycles (m_maincpu (machine_at_cycle (2 ^ 64 - 6))) = 2 ^ 64 - 6
   \<and> unat (2 ^ 64 - 6 :: 64 word) mod 10 = 0
   \<and> via_sync_delta (2 ^ 64 - 6) = - 6
   \<and> m_icount (m_maincpu (via_sync (machine_at_cycle (2 ^ 64 - 6))))
        = m_icount (m_maincpu (machine_at_cycle (2 ^ 64 - 6))) - 6"
proof -
  have d: "via_sync_delta (2 ^ 64 - 6) = - 6"
    by (simp add: via_sync_delta_def Let_def)
  have "via_sync_delta (total_cycles (m_maincpu (machine_at_cycle (2 ^ 64 - 6)))) = - 6"
    unfolding machine_at_cycle_total by (rule d)
  then have "m_icount (m_maincpu (via_sync (machine_at_cycle (2 ^ 64 - 6))))
        = m_icount (m_maincpu (machine_at_cycle (2 ^ 64 - 6))) - 6"
    by (simp add: via_sync_def adjust_icount_def)
  then show ?thesis
    using d by (simp add: machine_at_cycle_total)
qed

subsection \<open>PWM debounce\<close>

lemma pwm_push_partial:
  "m_pwm_count_total s + 1 \<noteq> 100 \<Longrightarrow>
   pwm_push d s = s\<lparr>m_pwm_count_1 := m_pwm_count_1 s + pulse_length d,
                    m_pwm_count_total := m_pwm_count_total s + 1\<rparr>"
  by (simp add: pwm_push_def Let_def)

lemma pwm_feed_partial:
  "0 \<le> m_pwm_count_total s \<Longrightarrow> m_pwm_count_total s + int (length ds) < 100 \<Longrightarrow>
   pwm_feed ds s = s\<lparr>m_pwm_count_1 := m_pwm_count_1 s + pulse_sum ds,
                     m_pwm_count_total := m_pwm_count_total s + int (length ds)\<rparr>"
proof (induction ds arbitrary: s)
  case Nil
  then show ?case by (simp add: pwm_feed_def pulse_sum_def)
next
  case (Cons d ds)
  have ne: "m_pwm_count_total s + 1 \<noteq> 100" using Cons.prems by simp
  let ?s1 = "pwm_push d s"
  have s1: "?s1 = s\<lparr>m_pwm_count_1 := m_pwm_count_1 s + pulse_length d,
                    m_pwm_count_total := m_pwm_count_total s + 1\<rparr>"
    by (rule pwm_push_partial [OF ne])
  have "pwm_feed (d # ds) s = pwm_feed ds ?s1" by (simp add: pwm_feed_def)
  also have "\<dots> = ?s1\<lparr>m_pwm_count_1 := m_pwm_count_1 ?s1 + pulse_sum ds,
                     m_pwm_count_total := m_pwm_count_total ?s1 + int (length ds)\<rparr>"
    using Cons.prems by (intro Cons.IH) (simp_all add: s1)
  finally show ?case by (simp add: s1 pulse_sum_def add.assoc)
qed

lemma pwm_feed_append: "pwm_feed (xs @ ys) s = pwm_feed ys (pwm_feed xs s)"
  by (simp add: pwm_feed_def)

lemma pwm_feed_window:
  assumes "m_pwm_count_total s = 0" "m_pwm_count_1 s = 0" "length ds = 100"
  shows "pwm_feed ds s = window_end (window_rpm ds) s"
proof -
  obtain xs d where ds: "ds = xs @ [d]" "length xs = 99"
    using assms(3) by (cases ds rule: rev_cases) auto
  let ?s1 = "pwm_feed xs s"
  have s1: "?s1 = s\<lparr>m_pwm_count_1 := pulse_sum xs, m_pwm_count_total := 99\<rparr>"
    using pwm_feed_partial [of s xs] assms(1,2) ds(2) by simp
  have sum: "pulse_sum ds = pulse_sum xs + pulse_length d"
    by (simp add: ds pulse_sum_def)
  have "pwm_feed ds s = pwm_push d ?s1"
    by (simp add: ds pwm_feed_append) (simp add: pwm_feed_def)
  also have "\<dots> = window_end (window_rpm ds) s"
    unfolding s1
    by (simp add: pwm_push_def window_end_def window_rpm_def sum Let_def split: option.split)
  finally show ?thesis .
qed

lemma window_end_counts:
  "m_pwm_count_total (window_end r s) = 0" "m_pwm_count_1 (window_end r s) = 0"
  "m_pwm_current_rpm (window_end r s) = (snd (m_pwm_current_rpm s), r)"
  by (simp_all add: window_end_def Let_def)

lemma window_end_commits:
  "commits (window_end r s) =
     (if r = snd (m_pwm_current_rpm s) \<and> snd (m_pwm_current_rpm s) \<noteq> fst (m_pwm_current_rpm s)
         \<and> (\<exists>f. m_cur_floppy s = Some f \<and> drive_type f = OAD34V)
      then commits s @ [r] else commits s)"
  by (auto simp: window_end_def commits_def set_rpm_def Let_def split: option.split)

lemma window_end_drive:
  "(\<exists>f. m_cur_floppy (window_end r s) = Some f \<and> drive_type f = OAD34V)
    = (\<exists>f. m_cur_floppy s = Some f \<and> drive_type f = OAD34V)"
  by (auto simp: window_end_def set_rpm_def Let_def split: option.split)

text \<open>
  The rounding on known values: a third as a \<open>float\<close>, a tenth as a \<open>double\<close>; and
  the speeds of the lowest, the highest and two other indices.
\<close>

lemma fp_round_examples:
  "to_float (1 / 3) = 11184811 / 33554432"
  "to_double (1 / 10) = 3602879701896397 / 36028797018963968"
  by code_simp+

lemma pwm_rpm_examples:
  "pwm_rpm 39 = 5604861 / 16384" "pwm_rpm 0 = 2466033 / 8192"
  "pwm_rpm 200 = 16764595 / 32768" "pwm_rpm 399 = 5907639 / 8192"
  by code_simp+

text \<open>With no drive of type \<open>OAD34V\<close> selected the decoder never touches the drive.\<close>

lemma pwm_push_other_drive:
  assumes "\<not> (\<exists>f. m_cur_floppy s = Some f \<and> drive_type f = OAD34V)"
  shows "m_cur_floppy (pwm_push d s) = m_cur_floppy s"
  using assms by (auto simp: pwm_push_def Let_def split: option.split)

lemma pwm_feed_other_drive:
  assumes "\<not> (\<exists>f. m_cur_floppy s = Some f \<and> drive_type f = OAD34V)"
  shows "m_cur_floppy (pwm_feed ds s) = m_cur_floppy s"
  using assms
proof (induction ds arbitrary: s)
  case Nil
  then show ?case by (simp add: pwm_feed_def)
next
  case (Cons d ds)
  have k: "m_cur_floppy (pwm_push d s) = m_cur_floppy s"
    by (rule pwm_push_other_drive [OF Cons.prems])
  have "pwm_feed (d # ds) s = pwm_feed ds (pwm_push d s)" by (simp add: pwm_feed_def)
  moreover have "m_cur_floppy (pwm_feed ds (pwm_push d s)) = m_cur_floppy (pwm_push d s)"
    by (rule Cons.IH) (simp add: k Cons.prems)
  ultimately show ?case using k by simp
qed

text \<open>
  C1, as the code has it.  Start at a window boundary and feed whole windows of 100
  pulses.  If the second window computes a speed different from the first, the second
  window commits nothing.  If the second computes the same speed as the first, the speed
  remembered before them is different, and the selected drive is of the variable-speed
  type \<open>OAD34V\<close>, then the first window commits nothing, the second commits that speed,
  and a third window with the same speed commits nothing more: exactly one commit.  Both
  counters are zero again after every window.  And from any state \<open>t\<close> with no drive
  selected or a drive of another type, no run of pulses \<open>ds\<close> commits anything or changes
  the drive.
\<close>

theorem pwm_debounce:
  assumes "m_pwm_count_total s = 0" and "m_pwm_count_1 s = 0"
    and "length w1 = 100" and "length w2 = 100" and "length w3 = 100"
  shows "(window_rpm w2 \<noteq> window_rpm w1 \<longrightarrow>
            commits (pwm_feed w2 (pwm_feed w1 s)) = commits (pwm_feed w1 s))
       \<and> (window_rpm w2 = window_rpm w1 \<and> window_rpm w1 \<noteq> snd (m_pwm_current_rpm s)
            \<and> (\<exists>f. m_cur_floppy s = Some f \<and> drive_type f = OAD34V) \<longrightarrow>
            commits (pwm_feed w1 s) = commits s
            \<and> commits (pwm_feed w2 (pwm_feed w1 s)) = commits s @ [window_rpm w2]
            \<and> (window_rpm w3 = window_rpm w2 \<longrightarrow>
                 commits (pwm_feed w3 (pwm_feed w2 (pwm_feed w1 s))) = commits s @ [window_rpm w2]))
       \<and> m_pwm_count_total (pwm_feed w1 s) = 0 \<and> m_pwm_count_1 (pwm_feed w1 s) = 0
       \<and> m_pwm_count_total (pwm_feed w2 (pwm_feed w1 s)) = 0
       \<and> m_pwm_count_1 (pwm_feed w2 (pwm_feed w1 s)) = 0
       \<and> (\<not> (\<exists>f. m_cur_floppy t = Some f \<and> drive_type f = OAD34V) \<longrightarrow>
            m_cur_floppy (pwm_feed ds t) = m_cur_floppy t
            \<and> commits (pwm_feed ds t) = commits t)"
proof -
  let ?s1 = "window_end (window_rpm w1) s"
  let ?s2 = "window_end (window_rpm w2) ?s1"
  let ?s3 = "window_end (window_rpm w3) ?s2"
  have f1: "pwm_feed w1 s = ?s1"
    by (rule pwm_feed_window [OF assms(1,2,3)])
  have f2: "pwm_feed w2 ?s1 = ?s2"
    by (rule pwm_feed_window [OF window_end_counts(1,2) assms(4)])
  have f3: "pwm_feed w3 ?s2 = ?s3"
    by (rule pwm_feed_window [OF window_end_counts(1,2) assms(5)])
  have other: "\<not> (\<exists>f. m_cur_floppy t = Some f \<and> drive_type f = OAD34V) \<longrightarrow>
            m_cur_floppy (pwm_feed ds t) = m_cur_floppy t
            \<and> commits (pwm_feed ds t) = commits t"
    by (simp add: pwm_feed_other_drive commits_def)
  have windows: "(window_rpm w2 \<noteq> window_rpm w1 \<longrightarrow> commits ?s2 = commits ?s1)
       \<and> (window_rpm w2 = window_rpm w1 \<and> window_rpm w1 \<noteq> snd (m_pwm_current_rpm s)
            \<and> (\<exists>f. m_cur_floppy s = Some f \<and> drive_type f = OAD34V) \<longrightarrow>
            commits ?s1 = commits s
            \<and> commits ?s2 = commits s @ [window_rpm w2]
            \<and> (window_rpm w3 = window_rpm w2 \<longrightarrow> commits ?s3 = commits s @ [window_rpm w2]))
       \<and> m_pwm_count_total ?s1 = 0 \<and> m_pwm_count_1 ?s1 = 0
       \<and> m_pwm_count_total ?s2 = 0 \<and> m_pwm_count_1 ?s2 = 0"
    by (simp add: window_end_commits window_end_counts window_end_drive)
  show ?thesis
    unfolding f1 f2 f3 using windows other by blast
qed

lemma pulse_sum_examples:
  "pulse_sum (replicate 100 31) = 500"
  "pulse_sum (replicate 99 31 @ [63]) = 501"
  "pulse_sum (replicate 100 1) = 100"
  by (simp_all add: pulse_sum_def pulse_length_def value_to_length_def sum_list_replicate)

lemma internal_index_examples:
  "internal_index 500 100 = 39" "internal_index 501 100 = 39" "internal_index 100 100 = 0"
  by (simp_all add: internal_index_def c_div_def Let_def)

lemma window_rpm_examples:
  "window_rpm (replicate 100 31) = 5604861 / 16384"
  "window_rpm (replicate 99 31 @ [63]) = 5604861 / 16384"
  "window_rpm (replicate 100 1) = 2466033 / 8192"
  by (simp_all add: window_rpm_def pulse_sum_examples internal_index_examples pwm_rpm_examples)

lemma machine_with_drive_simps:
  "m_pwm_count_total (machine_with_drive ty) = 0"
  "m_pwm_count_1 (machine_with_drive ty) = 0"
  "m_pwm_current_rpm (machine_with_drive ty) = (605 / 2, 605 / 2)"
  "m_cur_floppy (machine_with_drive ty) = Some \<lparr>drive_type = ty, drive_rpm = 0, rpm_commits = []\<rparr>"
  "commits (machine_with_drive ty) = []"
  by (simp_all add: machine_with_drive_def machine_reset_def cold_machine_def commits_def)

theorem pwm_debounce_witness:
  "commits (pwm_feed (replicate 100 31) (pwm_feed (replicate 100 1) (machine_with_drive OAD34V))) = []
   \<and> commits (pwm_feed (replicate 100 31) (machine_with_drive OAD34V)) = []
   \<and> commits (pwm_feed (replicate 100 31) (pwm_feed (replicate 100 31) (machine_with_drive OAD34V)))
       = [5604861 / 16384]
   \<and> commits (pwm_feed (replicate 100 31) (pwm_feed (replicate 100 31)
        (pwm_feed (replicate 100 31) (machine_with_drive OAD34V)))) = [5604861 / 16384]
   \<and> commits (pwm_feed (replicate 100 31 @ replicate 100 31) (machine_with_drive OTHER_DRIVE)) = []
   \<and> m_cur_floppy (pwm_feed (replicate 100 31 @ replicate 100 31) (machine_reset cold_machine)) = None"
proof -
  let ?s = "machine_with_drive OAD34V"
  note m0 = machine_with_drive_simps(1,2) [of OAD34V]
  have len: "length (replicate 100 (31 :: 8 word)) = 100" "length (replicate 100 (1 :: 8 word)) = 100"
    by simp_all
  have a: "commits (pwm_feed (replicate 100 1) ?s) = []"
    using pwm_feed_window [OF m0 len(2)]
    by (simp add: machine_with_drive_simps window_end_commits window_rpm_examples)
  have b: "commits (pwm_feed (replicate 100 31) (pwm_feed (replicate 100 1) ?s)) = []"
    using pwm_debounce [OF m0 len(2) len(1) len(1), where t = ?s and ds = "[]"] a
    by (simp add: window_rpm_examples)
  have c: "commits (pwm_feed (replicate 100 31) ?s) = []
      \<and> commits (pwm_feed (replicate 100 31) (pwm_feed (replicate 100 31) ?s)) = [5604861 / 16384]
      \<and> commits (pwm_feed (replicate 100 31) (pwm_feed (replicate 100 31)
           (pwm_feed (replicate 100 31) ?s))) = [5604861 / 16384]"
    using pwm_debounce [OF m0 len(1) len(1) len(1), where t = ?s and ds = "[]"]
    by (simp add: window_rpm_examples machine_with_drive_simps)
  have o: "\<not> (\<exists>f. m_cur_floppy (machine_with_drive OTHER_DRIVE) = Some f \<and> drive_type f = OAD34V)"
    by (simp add: machine_with_drive_simps)
  have d: "commits (pwm_feed (replicate 100 31 @ replicate 100 31) (machine_with_drive OTHER_DRIVE)) = []"
    using pwm_debounce [OF m0 len(1) len(1) len(1), where t = "machine_with_drive OTHER_DRIVE"
        and ds = "replicate 100 31 @ replicate 100 31"] o
    by (simp add: machine_with_drive_simps)
  have n: "m_cur_floppy (machine_reset cold_machine) = None"
    by (simp add: machine_reset_def cold_machine_def)
  have e: "m_cur_floppy (pwm_feed (replicate 100 31 @ replicate 100 31) (machine_reset cold_machine)) = None"
    using pwm_debounce [OF m0 len(1) len(1) len(1), where t = "machine_reset cold_machine"
        and ds = "replicate 100 31 @ replicate 100 31"] n
    by simp
  show ?thesis using b c d e by simp
qed

text \<open>
  Two windows whose pulse-length sums differ (500 and 501) compute the same index 39, hence
  the same speed, and the second one commits it.  And two windows of one and the same
  speed commit nothing when the selected drive is not of type \<open>OAD34V\<close>.
\<close>

theorem pwm_debounce_counterexample:
  "pulse_sum (replicate 100 31) \<noteq> pulse_sum (replicate 99 31 @ [63])
   \<and> commits (pwm_feed (replicate 100 31) (machine_with_drive OAD34V)) = []
   \<and> commits (pwm_feed (replicate 99 31 @ [63]) (pwm_feed (replicate 100 31) (machine_with_drive OAD34V)))
       = [5604861 / 16384]
   \<and> commits (pwm_feed (replicate 100 31) (pwm_feed (replicate 100 31) (machine_with_drive OTHER_DRIVE)))
       = []"
proof -
  have len: "length (replicate 100 (31 :: 8 word)) = 100" "length (replicate 99 (31 :: 8 word) @ [63]) = 100"
    by simp_all
  have w1: "pwm_feed (replicate 100 31) (machine_with_drive ty)
      = window_end (5604861 / 16384) (machine_with_drive ty)" for ty
    using pwm_feed_window [OF machine_with_drive_simps(1,2) [of ty] len(1)]
    by (simp add: window_rpm_examples)
  have w2: "pwm_feed (replicate 99 31 @ [63]) (window_end r (machine_with_drive ty))
      = window_end (5604861 / 16384) (window_end r (machine_with_drive ty))" for r ty
    using pwm_feed_window [OF window_end_counts(1,2) [of r "machine_with_drive ty"] len(2)]
    by (simp add: window_rpm_examples)
  have w3: "pwm_feed (replicate 100 31) (window_end r (machine_with_drive ty))
      = window_end (5604861 / 16384) (window_end r (machine_with_drive ty))" for r ty
    using pwm_feed_window [OF window_end_counts(1,2) [of r "machine_with_drive ty"] len(1)]
    by (simp add: window_rpm_examples)
  show ?thesis
    unfolding w1 w2 w3
    by (simp add: pulse_sum_examples window_end_commits window_end_counts window_end_drive
        machine_with_drive_simps)
qed

section \<open>Properties of the synthesiser\<close>

subsection \<open>FM clock resampler\<close>

lemma unat_ucast_32_64: "unat (ucast (x :: 32 word) :: 64 word) = unat x"
  by (simp add: unsigned_ucast_eq take_bit_nat_eq_self unsigned_less [of x, THEN less_trans])

lemma bit24: "bit (w :: 32 word) 24 \<longleftrightarrow> odd (unat w div 2 ^ 24)"
proof -
  have "bit w 24 \<longleftrightarrow> bit (unat w) 24" by (simp add: bit_unsigned_iff)
  then show ?thesis by (simp add: bit_iff_odd)
qed

lemma mask24: "(0xffffff :: 32 word) = mask 24"
  by (simp add: mask_eq_exp_minus_1)

lemma unat_and_ffffff: "unat ((w :: 32 word) AND 0xffffff) = unat w mod 2 ^ 24"
proof -
  have "w AND 0xffffff = take_bit 24 w"
    unfolding mask24 by (simp add: take_bit_eq_mask)
  then have "unat (w AND 0xffffff) = take_bit 24 (unat w)"
    by (simp only: unsigned_take_bit_eq)
  then show ?thesis by (simp only: take_bit_eq_mod)
qed

lemma fm_sample_step_unat:
  assumes "unat S < 2 ^ 24" and "unat pos < 2 ^ 24"
  shows "unat (fst (fm_sample_step fm S (pos, e))) = (unat pos + unat S) mod 2 ^ 24"
    and "snd (fm_sample_step fm S (pos, e)) = (fm_clock fm ^^ (1 + (unat pos + unat S) div 2 ^ 24)) e"
proof -
  have sum: "unat (pos + S) = unat pos + unat S"
    using assms by (simp add: unat_add_lem [THEN iffD1])
  have lt: "unat pos + unat S < 2 ^ 25" using assms by simp
  have q: "(unat pos + unat S) div 2 ^ 24 = (if 2 ^ 24 \<le> unat pos + unat S then 1 else 0)"
    using lt by (auto simp: div_eq_0_iff intro: le_antisym) 
  have b: "bit (pos + S) 24 \<longleftrightarrow> 2 ^ 24 \<le> unat pos + unat S"
    unfolding bit24 sum q by simp
  show "unat (fst (fm_sample_step fm S (pos, e))) = (unat pos + unat S) mod 2 ^ 24"
    using b by (simp add: fm_sample_step_def Let_def unat_and_ffffff sum)
  show "snd (fm_sample_step fm S (pos, e)) = (fm_clock fm ^^ (1 + (unat pos + unat S) div 2 ^ 24)) e"
    unfolding q using b by (simp add: fm_sample_step_def Let_def)
qed

lemma fm_resample_unat:
  assumes "unat S < 2 ^ 24"
  shows "unat (fst (fm_resample fm S N (0, e))) = (N * unat S) mod 2 ^ 24
       \<and> snd (fm_resample fm S N (0, e)) = (fm_clock fm ^^ (N + (N * unat S) div 2 ^ 24)) e"
proof (induction N)
  case 0
  show ?case by (simp add: fm_resample_def)
next
  case (Suc N)
  let ?st = "fm_resample fm S N (0, e)"
  let ?r = "(N * unat S) mod 2 ^ 24" let ?q = "(N * unat S) div 2 ^ 24"
  have st: "?st = (fst ?st, snd ?st)" by simp
  have step: "fm_resample fm S (Suc N) (0, e) = fm_sample_step fm S (fst ?st, snd ?st)"
    by (simp add: fm_resample_def)
  have r: "unat (fst ?st) = ?r" and c: "snd ?st = (fm_clock fm ^^ (N + ?q)) e"
    using Suc.IH by simp_all
  have rlt: "unat (fst ?st) < 2 ^ 24" unfolding r by simp
  have m: "(?r + unat S) mod 2 ^ 24 = (Suc N * unat S) mod 2 ^ 24"
  proof -
    have "(?r + unat S) mod 2 ^ 24 = (N * unat S + unat S) mod 2 ^ 24"
      by (rule mod_add_left_eq)
    then show ?thesis by (simp add: add.commute)
  qed
  have d: "?q + (?r + unat S) div 2 ^ 24 = (Suc N * unat S) div 2 ^ 24"
  proof -
    have "(N * unat S + unat S) div 2 ^ 24 = ?q + unat S div 2 ^ 24 + (?r + unat S mod 2 ^ 24) div 2 ^ 24"
      by (rule div_add1_eq)
    then show ?thesis using assms by (simp add: add.commute)
  qed
  have "unat (fst (fm_resample fm S (Suc N) (0, e))) = (Suc N * unat S) mod 2 ^ 24"
    unfolding step fm_sample_step_unat(1) [OF assms rlt] r by (rule m)
  moreover have "snd (fm_resample fm S (Suc N) (0, e))
      = (fm_clock fm ^^ (Suc N + (Suc N * unat S) div 2 ^ 24)) e"
  proof -
    have "snd (fm_resample fm S (Suc N) (0, e))
        = (fm_clock fm ^^ (1 + (?r + unat S) div 2 ^ 24)) ((fm_clock fm ^^ (N + ?q)) e)"
      unfolding step fm_sample_step_unat(2) [OF assms rlt] r c by (rule refl)
    also have "\<dots> = (fm_clock fm ^^ ((1 + (?r + unat S) div 2 ^ 24) + (N + ?q))) e"
      by (simp only: funpow_add o_apply)
    also have "(1 + (?r + unat S) div 2 ^ 24) + (N + ?q) = Suc N + (Suc N * unat S) div 2 ^ 24"
      using d by simp
    finally show ?thesis .
  qed
  ultimately show ?case by simp
qed

lemma counting_clock: "(fm_clock (counting_engine b) ^^ k) e = k + e"
  by (induction k) (simp_all add: counting_engine_def)

text \<open>
  C9.  For a fractional step \<open>S < 2^24\<close> and an accumulator starting at zero, \<open>N\<close> output
  samples clock the FM engine \<open>N\<close> times plus exactly \<open>floor (N * S / 2^24)\<close> extra times,
  and the accumulator ends at \<open>N * S mod 2^24\<close>; in particular the number of extra clocks
  is within one of \<open>floor (N * S / 2^24)\<close>.  \<open>FM_STEP\<close> is such a step.
\<close>

theorem fm_resample_cadence:
  assumes "unat S < 2 ^ 24"
  shows "snd (fm_resample fm S N (0, e)) = (fm_clock fm ^^ (N + (N * unat S) div 2 ^ 24)) e
       \<and> unat (fst (fm_resample fm S N (0, e))) = (N * unat S) mod 2 ^ 24
       \<and> extra_clocks S N = (N * unat S) div 2 ^ 24
       \<and> \<bar>int (extra_clocks S N) - int ((N * unat S) div 2 ^ 24)\<bar> \<le> 1"
proof -
  have x: "extra_clocks S N = (N * unat S) div 2 ^ 24"
    by (simp add: extra_clocks_def fm_resample_unat [OF assms] counting_clock)
  show ?thesis
    using fm_resample_unat [OF assms, of fm N e] x by simp
qed

lemma FM_STEP_value:
  "rat_of_nat (unat FM_STEP) \<le> (768 / 684 - 1) * 2 ^ 24"
  "(768 / 684 - 1) * 2 ^ 24 < rat_of_nat (unat FM_STEP) + 1"
  by (simp_all add: FM_STEP_def)

theorem fm_resample_cadence_witness:
  "unat FM_STEP < 2 ^ 24 \<and> extra_clocks FM_STEP 1000 = 122
   \<and> \<bar>int (extra_clocks FM_STEP 1000) - int ((1000 * unat FM_STEP) div 2 ^ 24)\<bar> \<le> 1"
proof -
  have h: "unat FM_STEP < 2 ^ 24" by (simp add: FM_STEP_def)
  have v: "(1000 * unat FM_STEP) div 2 ^ 24 = 122" by (simp add: FM_STEP_def)
  show ?thesis
    using fm_resample_cadence [OF h, of "counting_engine 1" 1000 0] h v by simp
qed

subsection \<open>Envelope generator\<close>

lemma ce_terminal:
  assumes "env_step sl = 3 \<or> env_step sl = 5"
  shows "compute_envelope sl = sl\<lparr>env_vol := push_bit 23 256, env_vol_step := 0, env_vol_lim := 0, active := 0\<rparr>"
  using assms by (subst compute_envelope.simps) auto

lemma ce_decay:
  assumes "env_step sl = 2 \<or> env_step sl = 4"
  shows "compute_envelope sl =
     (snd (compute_decay_env_vol_step sl (if env_step sl = 2 then D2R sl else RR sl)))
       \<lparr>env_vol_step := fst (compute_decay_env_vol_step sl (if env_step sl = 2 then D2R sl else RR sl)),
        env_vol_lim := push_bit 23 256\<rparr>"
  using assms by (subst compute_envelope.simps) (auto simp: Let_def split: prod.split)

lemma ce_other:
  assumes "env_step sl < 0 \<or> 5 < env_step sl"
  shows "compute_envelope sl = sl"
proof -
  have "env_step sl \<noteq> 0" "env_step sl \<noteq> 1" "env_step sl \<noteq> 2" "env_step sl \<noteq> 3"
    "env_step sl \<noteq> 4" "env_step sl \<noteq> 5"
    using assms by auto
  then show ?thesis by (subst compute_envelope.simps) simp
qed

lemma ce_decay1:
  assumes "env_step sl = 1"
  shows "compute_envelope sl =
     (if DL sl \<noteq> 0
      then (snd (compute_decay_env_vol_step sl (D1R sl)))
             \<lparr>env_vol_step := fst (compute_decay_env_vol_step sl (D1R sl)),
              env_vol_lim := word_of_int (push_bit 23 (DL sl * 8))\<rparr>
      else compute_envelope (sl\<lparr>env_step := 2\<rparr>))"
  using assms by (subst compute_envelope.simps) (simp add: Let_def split: prod.split)

lemma ce_attack:
  assumes "env_step sl = 0"
  shows "compute_envelope sl =
     (if compute_rate sl (AR sl) = 63
      then compute_envelope (sl\<lparr>env_vol_lim := push_bit 23 256 - 1, env_vol := 0, env_step := 1\<rparr>)
      else if compute_rate sl (AR sl) < 4
      then sl\<lparr>env_vol := push_bit 23 256, env_vol_lim := push_bit 23 256 - 1, env_vol_step := 0\<rparr>
      else sl\<lparr>env_vol := push_bit 23 256, env_vol_lim := push_bit 23 256 - 1,
              env_vol_step := NOT (word_of_int (push_bit 23 256 div m_lut_ar (compute_rate sl (AR sl))))\<rparr>)"
  using assms by (subst compute_envelope.simps) (simp add: Let_def)

lemma cdevs_cases:
  "snd (compute_decay_env_vol_step sl v) = sl \<or> snd (compute_decay_env_vol_step sl v) = sl\<lparr>env_preverb := 1\<rparr>"
  by (simp add: compute_decay_env_vol_step_def Let_def)

lemma cdevs_same:
  "same_voice sl (snd (compute_decay_env_vol_step sl v))"
  "active (snd (compute_decay_env_vol_step sl v)) = active sl"
  "env_step (snd (compute_decay_env_vol_step sl v)) = env_step sl"
  "env_vol (snd (compute_decay_env_vol_step sl v)) = env_vol sl"
  by (simp_all add: compute_decay_env_vol_step_def Let_def same_voice_def)

lemma same_voice_refl: "same_voice sl sl"
  by (simp add: same_voice_def)

lemma same_voice_trans: "same_voice a b \<Longrightarrow> same_voice b c \<Longrightarrow> same_voice a c"
  by (simp add: same_voice_def)

lemma same_voice_env_update:
  "same_voice sl (sl'\<lparr>env_vol := v\<rparr>) = same_voice sl sl'"
  "same_voice sl (sl'\<lparr>env_vol_lim := l\<rparr>) = same_voice sl sl'"
  "same_voice sl (sl'\<lparr>env_vol_step := st\<rparr>) = same_voice sl sl'"
  "same_voice sl (sl'\<lparr>env_step := es\<rparr>) = same_voice sl sl'"
  "same_voice sl (sl'\<lparr>active := a\<rparr>) = same_voice sl sl'"
  "same_voice sl (sl'\<lparr>env_preverb := p\<rparr>) = same_voice sl sl'"
  "same_voice (sl\<lparr>env_vol := v\<rparr>) sl' = same_voice sl sl'"
  "same_voice (sl\<lparr>env_vol_lim := l\<rparr>) sl' = same_voice sl sl'"
  "same_voice (sl\<lparr>env_vol_step := st\<rparr>) sl' = same_voice sl sl'"
  "same_voice (sl\<lparr>env_step := es\<rparr>) sl' = same_voice sl sl'"
  "same_voice (sl\<lparr>active := a\<rparr>) sl' = same_voice sl sl'"
  "same_voice (sl\<lparr>env_preverb := p\<rparr>) sl' = same_voice sl sl'"
  by (simp_all add: same_voice_def)

lemma env_effect_terminal:
  assumes "env_step sl = 3 \<or> env_step sl = 5"
  shows "env_effect sl (compute_envelope sl)"
  using assms
  by (auto simp: env_effect_def ce_terminal [OF assms] same_voice_env_update same_voice_refl)

lemma env_effect_decay:
  assumes "env_step sl = 2 \<or> env_step sl = 4"
  shows "env_effect sl (compute_envelope sl)"
  using assms
  by (auto simp: env_effect_def ce_decay [OF assms] same_voice_env_update cdevs_same)

lemma env_effect_other:
  assumes "env_step sl < 0 \<or> 5 < env_step sl"
  shows "env_effect sl (compute_envelope sl)"
  using assms
  by (auto simp: env_effect_def ce_other [OF assms] same_voice_refl)

lemma env_effect_decay1:
  assumes "env_step sl = 1"
  shows "env_effect sl (compute_envelope sl)"
proof (cases "DL sl = 0")
  case True
  let ?s2 = "sl\<lparr>env_step := 2\<rparr>"
  have e2: "env_step ?s2 = 2 \<or> env_step ?s2 = 4" by simp
  have "env_effect ?s2 (compute_envelope ?s2)" by (rule env_effect_decay [OF e2])
  moreover have "compute_envelope sl = compute_envelope ?s2"
    using True by (simp add: ce_decay1 [OF assms])
  ultimately show ?thesis
    using assms by (simp add: env_effect_def same_voice_env_update)
next
  case False
  then show ?thesis
    using assms
    by (auto simp: env_effect_def ce_decay1 [OF assms] same_voice_env_update cdevs_same)
qed

lemma env_effect_attack:
  assumes "env_step sl = 0"
  shows "env_effect sl (compute_envelope sl)"
proof (cases "compute_rate sl (AR sl) = 63")
  case True
  let ?s1 = "sl\<lparr>env_vol_lim := push_bit 23 256 - 1, env_vol := 0, env_step := 1\<rparr>"
  have e1: "env_step ?s1 = 1" by simp
  have "env_effect ?s1 (compute_envelope ?s1)" by (rule env_effect_decay1 [OF e1])
  moreover have "compute_envelope sl = compute_envelope ?s1"
    using True by (simp add: ce_attack [OF assms])
  ultimately show ?thesis
    using assms by (simp add: env_effect_def same_voice_env_update)
next
  case False
  then show ?thesis
    using assms
    by (auto simp: env_effect_def ce_attack [OF assms] same_voice_env_update same_voice_refl)
qed

lemma compute_envelope_effect: "env_effect sl (compute_envelope sl)"
proof -
  consider "env_step sl = 0" | "env_step sl = 1" | "env_step sl = 2 \<or> env_step sl = 4"
    | "env_step sl = 3 \<or> env_step sl = 5" | "env_step sl < 0 \<or> 5 < env_step sl"
    by linarith
  then show ?thesis
    by cases (simp_all add: env_effect_attack env_effect_decay1 env_effect_decay
        env_effect_terminal env_effect_other)
qed

lemma compute_freq_step_same:
  "compute_freq_step sl = sl\<lparr>step := step (compute_freq_step sl)\<rparr>"
  by (simp add: compute_freq_step_def Let_def)

lemma compute_freq_step_fields:
  "octave (compute_freq_step sl) = octave sl" "active (compute_freq_step sl) = active sl"
  "env_step (compute_freq_step sl) = env_step sl" "KEY_ON (compute_freq_step sl) = KEY_ON sl"
  "AR (compute_freq_step sl) = AR sl" "DL (compute_freq_step sl) = DL sl"
  "RC (compute_freq_step sl) = RC sl" "F_NUMBER (compute_freq_step sl) = F_NUMBER sl"
  "stepptr (compute_freq_step sl) = stepptr sl" "env_vol (compute_freq_step sl) = env_vol sl"
  by (simp_all add: compute_freq_step_def Let_def)

lemma compute_rate_cong:
  "octave a = octave b \<Longrightarrow> RC a = RC b \<Longrightarrow> F_NUMBER a = F_NUMBER b \<Longrightarrow> compute_rate a v = compute_rate b v"
  by (simp add: compute_rate_def)

text \<open>The slot registers: register 8 + snum + 24 k is parameter group k of slot snum.\<close>

lemma slot_reg_decode:
  fixes reg :: u8
  assumes "unat reg = 8 + snum + 24 * k" and "snum < 24" and "k \<le> 9"
  shows "0x08 \<le> reg" and "reg \<le> 0xf7"
    and "(unat reg - 8) mod 24 = snum" and "(unat reg - 8) div 24 = k"
proof -
  show "0x08 \<le> reg" unfolding word_le_nat_alt assms(1) by simp
  show "reg \<le> 0xf7" unfolding word_le_nat_alt assms(1) using assms(2,3) by simp
  show "(unat reg - 8) mod 24 = snum" unfolding assms(1) using assms(2) by simp
  show "(unat reg - 8) div 24 = k" unfolding assms(1) using assms(2) by simp
qed

lemma C_w_slot_reg:
  fixes reg :: u8
  assumes "unat reg = 8 + snum + 24 * k" and "snum < 24" and "1 \<le> k" and "k \<le> 9"
  shows "C_w fm reg data s =
     s\<lparr>m_slots := (m_slots s)(snum := C_w_slot k (m_pcmregs s reg) data (m_slots s snum)),
       m_pcmregs := (m_pcmregs s)(reg := data)\<rparr>"
  using assms(3) slot_reg_decode [OF assms(1,2,4)]
  by (simp add: C_w_def C_w_direct_def Let_def)

lemma C_w_direct_slot_reg:
  fixes reg :: u8
  assumes "unat reg = 8 + snum + 24 * k" and "snum < 24" and "k \<le> 9"
  shows "C_w_direct reg data s =
     s\<lparr>m_slots := (m_slots s)(snum := C_w_slot k (m_pcmregs s reg) data (m_slots s snum)),
       m_pcmregs := (m_pcmregs s)(reg := data)\<rparr>"
  using slot_reg_decode [OF assms]
  by (simp add: C_w_direct_def Let_def)

lemma retrigger_sample_effect:
  "octave (retrigger_sample sl) = octave sl"
  "KEY_ON (retrigger_sample sl) = KEY_ON sl"
  "stepptr (retrigger_sample sl) = 0"
  "active (retrigger_sample sl) = (if octave sl \<noteq> 8 then 1 else active sl)"
  "env_step (retrigger_sample sl) = 0 \<or> env_step (retrigger_sample sl) = 1
     \<or> env_step (retrigger_sample sl) = 2"
proof -
  let ?s2 = "compute_freq_step ((if octave sl \<noteq> 8 then sl\<lparr>active := 1\<rparr> else sl)
      \<lparr>stepptr := 0, env_step := 0, env_preverb := 0\<rparr>)"
  have r: "retrigger_sample sl = compute_envelope ?s2"
    by (simp add: retrigger_sample_def Let_def)
  have e: "env_effect ?s2 (compute_envelope ?s2)" by (rule compute_envelope_effect)
  have s2: "env_step ?s2 = 0" "octave ?s2 = octave sl" "KEY_ON ?s2 = KEY_ON sl" "stepptr ?s2 = 0"
    "active ?s2 = (if octave sl \<noteq> 8 then 1 else active sl)"
    by (simp_all add: compute_freq_step_fields)
  show "octave (retrigger_sample sl) = octave sl" "KEY_ON (retrigger_sample sl) = KEY_ON sl"
    "stepptr (retrigger_sample sl) = 0"
    "active (retrigger_sample sl) = (if octave sl \<noteq> 8 then 1 else active sl)"
    "env_step (retrigger_sample sl) = 0 \<or> env_step (retrigger_sample sl) = 1
     \<or> env_step (retrigger_sample sl) = 2"
    using e unfolding r env_effect_def same_voice_def s2 by auto
qed

lemma key_bit: "(d :: int) AND 0x80 \<noteq> 0 \<Longrightarrow> drop_bit 7 d AND 1 = 1"
proof -
  assume a: "d AND 0x80 \<noteq> 0"
  have "(d AND 2 ^ 7 = 0) = (\<not> bit d 7)" by (rule and_exp_eq_0_iff_not_bit)
  then have "bit d 7" using a by simp
  then have "odd (drop_bit 7 d)" by (simp add: bit_iff_odd_drop_bit)
  then show ?thesis by (simp add: and_one_eq mod_2_eq_odd)
qed

lemma decay_phase:
  assumes "env_step y = 2 \<or> env_step y = 4"
  shows "env_step (compute_envelope y) = env_step y" and "env_vol (compute_envelope y) = env_vol y"
    and "active (compute_envelope y) = active y"
  by (simp_all add: ce_decay [OF assms] cdevs_same)

lemma decay1_phase:
  assumes "env_step y = 1"
  shows "env_step (compute_envelope y) = (if DL y \<noteq> 0 then 1 else 2)"
    and "env_vol (compute_envelope y) = env_vol y"
  using assms by (simp_all add: ce_decay1 [OF assms] cdevs_same decay_phase)

lemma attack_phase:
  assumes "env_step x = 0"
  shows "env_step (compute_envelope x) =
           (if compute_rate x (AR x) \<noteq> 63 then 0 else if DL x \<noteq> 0 then 1 else 2)"
    and "compute_rate x (AR x) = 63 \<Longrightarrow> env_vol (compute_envelope x) = 0"
  using assms by (simp_all add: ce_attack [OF assms] decay1_phase)

lemma release_phase:
  "env_step (compute_envelope (x\<lparr>env_step := 4\<rparr>)) = 4"
  "active (compute_envelope (x\<lparr>env_step := 4\<rparr>)) = active x"
  by (simp_all add: decay_phase)

lemma retrigger_phase:
  "env_step (retrigger_sample y) =
     (if compute_rate y (AR y) \<noteq> 63 then 0 else if DL y \<noteq> 0 then 1 else 2)"
proof -
  define w where "w = compute_freq_step ((if octave y \<noteq> 8 then y\<lparr>active := 1\<rparr> else y)
      \<lparr>stepptr := 0, env_step := 0, env_preverb := 0\<rparr>)"
  have r: "retrigger_sample y = compute_envelope w"
    by (simp add: retrigger_sample_def Let_def w_def)
  have w: "env_step w = 0" "AR w = AR y" "DL w = DL y"
    by (simp_all add: w_def compute_freq_step_fields)
  have rate: "compute_rate w (AR y) = compute_rate y (AR y)"
    by (rule compute_rate_cong) (simp_all add: w_def compute_freq_step_fields)
  show ?thesis
    unfolding r attack_phase(1) [OF w(1)] w(2,3) rate by (rule refl)
qed

text \<open>Key-on and key-off through the slot's register of group 4.\<close>

lemma key_on_slot:
  assumes "uint data AND 0x80 \<noteq> 0" and "KEY_ON sl = 0"
  shows "KEY_ON (C_w_slot 4 old data sl) = 1"
    and "stepptr (C_w_slot 4 old data sl) = 0"
    and "env_step (C_w_slot 4 old data sl) =
           (if compute_rate sl (AR sl) \<noteq> 63 then 0 else if DL sl \<noteq> 0 then 1 else 2)"
proof -
  define s1 where "s1 = sl\<lparr>CH := drop_bit 4 (uint data AND 0x10), pan := uint data AND 0xf,
      DAMP := drop_bit 6 (uint data AND 0x40)\<rparr>"
  have k: "KEY_ON s1 = 0" "AR s1 = AR sl" "DL s1 = DL sl"
    using assms(2) by (simp_all add: s1_def)
  have rate: "compute_rate s1 (AR sl) = compute_rate sl (AR sl)"
    by (rule compute_rate_cong) (simp_all add: s1_def)
  have c: "C_w_slot 4 old data sl = (retrigger_sample s1)\<lparr>KEY_ON := drop_bit 7 (uint data AND 0x80)\<rparr>"
    using assms(1) k(1) unfolding C_w_slot_def Let_def s1_def [symmetric] by simp
  have one: "drop_bit 7 (uint data AND 0x80) = 1"
    using key_bit [OF assms(1)] by simp
  show "KEY_ON (C_w_slot 4 old data sl) = 1" unfolding c one by simp
  show "stepptr (C_w_slot 4 old data sl) = 0"
    unfolding c by (simp add: retrigger_sample_effect)
  have "env_step (C_w_slot 4 old data sl) = env_step (retrigger_sample s1)"
    unfolding c by simp
  then show "env_step (C_w_slot 4 old data sl) =
           (if compute_rate sl (AR sl) \<noteq> 63 then 0 else if DL sl \<noteq> 0 then 1 else 2)"
    unfolding retrigger_phase k(2,3) rate .
qed

lemma key_off_slot:
  assumes "uint data AND 0x80 = 0" and "active sl \<noteq> 0"
  shows "env_step (C_w_slot 4 old data sl) = 4"
    and "KEY_ON (C_w_slot 4 old data sl) = 0"
    and "active (C_w_slot 4 old data sl) = active sl"
  using assms by (simp_all add: C_w_slot_def Let_def release_phase)

lemma max_rate_code: "compute_rate x 15 = 63"
  by (simp add: compute_rate_def)

lemma attack_stays:
  assumes "env_step x = 0" and "compute_rate x (AR x) \<noteq> 63"
  shows "env_vol (compute_envelope x) = push_bit 23 256"
  using assms by (simp add: ce_attack [OF assms(1)])

text \<open>
  C6.  Through the slot's key register (\<open>0x68 + snum\<close>, group 4): a write with bit 7 set
  while the key was off retriggers the voice, which enters the attack phase (step 0) unless
  the attack rate is 63, and then decay 1 (step 1) or, with \<open>DL = 0\<close>, decay 2 (step 2);
  a write with bit 7 clear on an active voice puts it into release (step 4) whatever its
  phase was.  For the envelope itself: an attack of rate 63 leaves at once with the volume
  at full-on (\<open>env_vol = 0\<close>) for decay 1, or decay 2 when \<open>DL = 0\<close>; the rate code 15
  gives rate 63; any other attack stays in step 0 with the volume at full-off; and decay 1
  with \<open>DL = 0\<close> goes on to decay 2 at once.
\<close>

theorem envelope_phase_transitions:
  fixes reg :: u8
  assumes "unat reg = 104 + snum" and "snum < 24"
  shows "(uint data AND 0x80 \<noteq> 0 \<and> KEY_ON (m_slots s snum) = 0 \<longrightarrow>
            KEY_ON (m_slots (C_w fm reg data s) snum) = 1
            \<and> stepptr (m_slots (C_w fm reg data s) snum) = 0
            \<and> env_step (m_slots (C_w fm reg data s) snum) =
                (if compute_rate (m_slots s snum) (AR (m_slots s snum)) \<noteq> 63 then 0
                 else if DL (m_slots s snum) \<noteq> 0 then 1 else 2))
       \<and> (uint data AND 0x80 = 0 \<and> active (m_slots s snum) \<noteq> 0 \<longrightarrow>
            env_step (m_slots (C_w fm reg data s) snum) = 4
            \<and> KEY_ON (m_slots (C_w fm reg data s) snum) = 0)
       \<and> (env_step x = 0 \<and> compute_rate x (AR x) = 63 \<longrightarrow>
            env_vol (compute_envelope x) = 0
            \<and> env_step (compute_envelope x) = (if DL x \<noteq> 0 then 1 else 2))
       \<and> (AR x = 15 \<longrightarrow> compute_rate x (AR x) = 63)
       \<and> (env_step x = 0 \<and> compute_rate x (AR x) \<noteq> 63 \<longrightarrow>
            env_step (compute_envelope x) = 0 \<and> env_vol (compute_envelope x) = push_bit 23 256)
       \<and> (env_step x = 1 \<and> DL x = 0 \<longrightarrow> env_step (compute_envelope x) = 2)"
proof -
  have r: "unat reg = 8 + snum + 24 * 4" using assms(1) by simp
  have sl: "m_slots (C_w fm reg data s) snum = C_w_slot 4 (m_pcmregs s reg) data (m_slots s snum)"
    by (simp add: C_w_slot_reg [OF r assms(2)])
  show ?thesis
    unfolding sl
    by (simp add: key_on_slot key_off_slot attack_phase max_rate_code attack_stays decay1_phase)
qed

lemma blank_key_on:
  "m_slots (C_w fm 104 data blank_chip) 0 = C_w_slot 4 0 data blank_slot"
proof -
  have r: "unat (104 :: u8) = 8 + 0 + 24 * 4" by simp
  show ?thesis by (simp add: C_w_slot_reg [OF r] blank_chip_def)
qed

theorem envelope_phase_transitions_witness:
  "env_step (m_slots (C_w (counting_engine 1) 104 0x80 blank_chip) 0) = 0
   \<and> KEY_ON (m_slots (C_w (counting_engine 1) 104 0x80 blank_chip) 0) = 1
   \<and> env_step (m_slots (C_w (counting_engine 1) 104 0
        (C_w (counting_engine 1) 104 0x80 blank_chip)) 0) = 4
   \<and> env_vol (compute_envelope (blank_slot\<lparr>AR := 15, env_step := 0\<rparr>)) = 0
   \<and> env_step (compute_envelope (blank_slot\<lparr>AR := 15, env_step := 0\<rparr>)) = 2
   \<and> env_step (compute_envelope (blank_slot\<lparr>env_step := 1\<rparr>)) = 2"
proof -
  let ?fm = "counting_engine 1"
  let ?s1 = "C_w ?fm 104 0x80 blank_chip"
  have r: "unat (104 :: u8) = 104 + 0" "(0 :: nat) < 24" by simp_all
  have k0: "KEY_ON (m_slots blank_chip 0) = 0" "AR (m_slots blank_chip 0) = 0"
    by (simp_all add: blank_chip_def blank_slot_def)
  have c0: "compute_rate (m_slots blank_chip 0) 0 = 0" by (simp add: compute_rate_def)
  have a: "env_step (m_slots ?s1 0) = 0 \<and> KEY_ON (m_slots ?s1 0) = 1"
    using envelope_phase_transitions [OF r, of "0x80" blank_chip ?fm blank_slot] k0 c0 by simp
  have act: "active (m_slots ?s1 0) \<noteq> 0"
    by (simp add: blank_key_on C_w_slot_def Let_def retrigger_sample_effect blank_slot_def)
  have b: "env_step (m_slots (C_w ?fm 104 0 ?s1) 0) = 4"
    using envelope_phase_transitions [OF r, of 0 ?s1 ?fm blank_slot] act by simp
  let ?x = "blank_slot\<lparr>AR := 15, env_step := 0\<rparr>"
  have x: "env_step ?x = 0" "AR ?x = 15" "DL ?x = 0" by (simp_all add: blank_slot_def)
  have c: "env_vol (compute_envelope ?x) = 0 \<and> env_step (compute_envelope ?x) = 2"
    using envelope_phase_transitions [OF r, of 0 blank_chip ?fm ?x] x by simp
  let ?y = "blank_slot\<lparr>env_step := 1\<rparr>"
  have y: "env_step ?y = 1" "DL ?y = 0" by (simp_all add: blank_slot_def)
  have d: "env_step (compute_envelope ?y) = 2"
    using envelope_phase_transitions [OF r, of 0 blank_chip ?fm ?y] y by simp
  show ?thesis using a b c d by simp
qed

subsection \<open>Loop wrap of the sample position\<close>

lemma loop_wrap_exact:
  assumes "loopaddr slot < endaddr slot" and "ucast (endaddr slot) \<le> stepptr slot"
  shows "stepptr (loop_wrap slot) = stepptr slot - ucast (endaddr slot) + ucast (loopaddr slot)"
    and "int (unat (stepptr (loop_wrap slot)))
           = int (unat (stepptr slot)) - int (unat (endaddr slot)) + int (unat (loopaddr slot))"
    and "unat (loopaddr slot) \<le> unat (stepptr (loop_wrap slot))"
    and "unat (stepptr (loop_wrap slot)) < unat (stepptr slot)"
proof -
  let ?p = "stepptr slot" let ?E = "ucast (endaddr slot) :: u64" let ?L = "ucast (loopaddr slot) :: u64"
  show w: "stepptr (loop_wrap slot) = ?p - ?E + ?L"
    using assms(2) by (simp add: loop_wrap_def)
  have E: "unat ?E = unat (endaddr slot)" by (rule unat_ucast_32_64)
  have L: "unat ?L = unat (loopaddr slot)" by (rule unat_ucast_32_64)
  have le: "unat ?E \<le> unat ?p" using assms(2) by (simp add: word_le_nat_alt)
  have lt: "unat (loopaddr slot) < unat (endaddr slot)" using assms(1) by (simp add: word_less_nat_alt)
  have d: "unat (?p - ?E) = unat ?p - unat ?E" using assms(2) by (rule unat_sub)
  have p64: "unat ?p < 2 ^ 64" using unsigned_less [of ?p] by simp
  have "unat (?p - ?E) + unat ?L < 2 ^ LENGTH(64)"
    using le lt p64 unfolding d E L by simp
  then have "unat (?p - ?E + ?L) = unat (?p - ?E) + unat ?L"
    by (rule unat_add_lem [THEN iffD1])
  then have u: "unat (stepptr (loop_wrap slot)) = unat ?p - unat (endaddr slot) + unat (loopaddr slot)"
    unfolding w d E L .
  have le': "unat (endaddr slot) \<le> unat ?p" using le unfolding E .
  show "int (unat (stepptr (loop_wrap slot)))
           = int (unat (stepptr slot)) - int (unat (endaddr slot)) + int (unat (loopaddr slot))"
    unfolding u using le' by (simp add: of_nat_diff)
  show "unat (loopaddr slot) \<le> unat (stepptr (loop_wrap slot))" unfolding u by simp
  show "unat (stepptr (loop_wrap slot)) < unat (stepptr slot)" unfolding u using le' lt by simp
qed

lemma advance_envelope_cases:
  "advance_envelope sl = sl\<lparr>env_vol := env_vol sl + env_vol_step sl\<rparr>
   \<or> advance_envelope sl = compute_envelope (sl\<lparr>env_vol := env_vol sl + env_vol_step sl\<rparr>)
   \<or> advance_envelope sl = compute_envelope (sl\<lparr>env_vol := env_vol sl + env_vol_step sl,
         env_step := env_step sl + 1\<rparr>)"
  by (simp add: advance_envelope_def Let_def)

lemma compute_envelope_same: "same_voice y (compute_envelope y)"
  using compute_envelope_effect [of y] by (simp add: env_effect_def)

lemma advance_envelope_same: "same_voice sl (advance_envelope sl)"
proof -
  have "same_voice sl (compute_envelope (sl\<lparr>env_vol := env_vol sl + env_vol_step sl\<rparr>))"
    using compute_envelope_same [of "sl\<lparr>env_vol := env_vol sl + env_vol_step sl\<rparr>"]
    by (simp add: same_voice_env_update)
  moreover have "same_voice sl (compute_envelope (sl\<lparr>env_vol := env_vol sl + env_vol_step sl,
         env_step := env_step sl + 1\<rparr>))"
    using compute_envelope_same [of "sl\<lparr>env_vol := env_vol sl + env_vol_step sl, env_step := env_step sl + 1\<rparr>"]
    by (simp add: same_voice_env_update)
  ultimately show ?thesis
    using advance_envelope_cases [of sl] by (auto simp: same_voice_env_update same_voice_refl)
qed

lemma voice_sample_stepptr:
  "stepptr (fst (snd (voice_sample s j (prev, slot, mix))))
     = stepptr (loop_wrap slot) + ucast (step (loop_wrap slot))"
proof -
  have "stepptr (advance_envelope y) = stepptr y" for y
    using advance_envelope_same [of y] by (simp add: same_voice_def)
  then show ?thesis by (simp add: voice_sample_def Let_def)
qed

text \<open>
  C8.  When the loop address lies below the end address and the position has reached or
  passed the end address, the wrap sets the position to \<open>phase_old - E + L\<close>; nothing
  wraps around in this computation, so the new position is that value as an integer: it is
  not negative, at least \<open>L\<close> and below the old position.  The sample step then
  continues from the wrapped position.  (The start address plays no part in the wrap.)
\<close>

theorem loop_wrap_phase:
  assumes "loopaddr slot < endaddr slot" and "ucast (endaddr slot) \<le> stepptr slot"
  shows "stepptr (loop_wrap slot) = stepptr slot - ucast (endaddr slot) + ucast (loopaddr slot)
       \<and> int (unat (stepptr (loop_wrap slot)))
           = int (unat (stepptr slot)) - int (unat (endaddr slot)) + int (unat (loopaddr slot))
       \<and> 0 \<le> int (unat (stepptr slot)) - int (unat (endaddr slot)) + int (unat (loopaddr slot))
       \<and> unat (loopaddr slot) \<le> unat (stepptr (loop_wrap slot))
       \<and> unat (stepptr (loop_wrap slot)) < unat (stepptr slot)
       \<and> stepptr (fst (snd (voice_sample s j (prev, slot, mix))))
           = stepptr slot - ucast (endaddr slot) + ucast (loopaddr slot) + ucast (step slot)"
proof -
  note w = loop_wrap_exact [OF assms]
  have nn: "0 \<le> int (unat (stepptr slot)) - int (unat (endaddr slot)) + int (unat (loopaddr slot))"
    unfolding w(2) [symmetric] by simp
  have st: "step (loop_wrap slot) = step slot" by (simp add: loop_wrap_def)
  show ?thesis
    using w nn by (simp add: voice_sample_stepptr st)
qed

theorem loop_wrap_phase_witness:
  "stepptr (loop_wrap (blank_slot\<lparr>stepptr := 0x50000, loopaddr := 0x10000, endaddr := 0x40000\<rparr>))
     = 0x20000
   \<and> int (unat (stepptr (loop_wrap (blank_slot\<lparr>stepptr := 0x50000, loopaddr := 0x10000,
        endaddr := 0x40000\<rparr>)))) = 0x50000 - 0x40000 + 0x10000"
proof -
  let ?sl = "blank_slot\<lparr>stepptr := 0x50000, loopaddr := 0x10000, endaddr := 0x40000\<rparr>"
  have h: "loopaddr ?sl < endaddr ?sl" "ucast (endaddr ?sl) \<le> stepptr ?sl"
    by simp_all
  show ?thesis
    using loop_wrap_phase [OF h, of blank_chip 0 0 "\<lambda>k. 0"] by simp
qed

subsection \<open>The NEW2 gate of the PCM port\<close>

text \<open>
  C10.  While the FM register bank's NEW2 flag is clear, a write to port offset 5 changes
  nothing at all and a read from offset 5 returns 0 and changes nothing; no write at any
  offset and no read changes the PCM register file or a voice slot, and what a read
  returns does not depend on them.
\<close>

theorem pcm_port_gated_by_new2:
  assumes "fm_new2flag fm (m_fm s) = 0"
  shows "(offset AND 7 = 5 \<longrightarrow>
            write_port fm pending offset data s = s \<and> read_port fm offset s = (0, s))
       \<and> m_pcmregs (write_port fm pending offset data s) = m_pcmregs s
       \<and> m_slots (write_port fm pending offset data s) = m_slots s
       \<and> m_pcmregs (snd (read_port fm offset s)) = m_pcmregs s
       \<and> m_slots (snd (read_port fm offset s)) = m_slots s
       \<and> fst (read_port fm offset (s\<lparr>m_pcmregs := regs, m_slots := slots\<rparr>))
            = fst (read_port fm offset s)"
  using assms
  by (simp add: write_port_def read_port_def timer_busy_start_def Let_def)

theorem pcm_port_gated_by_new2_witness:
  "write_port (counting_engine 0) 3 5 0x55 (blank_chip\<lparr>m_port_C := 0x20\<rparr>)
     = blank_chip\<lparr>m_port_C := 0x20\<rparr>
   \<and> read_port (counting_engine 0) 5 (blank_chip\<lparr>m_port_C := 0x20\<rparr>)
     = (0, blank_chip\<lparr>m_port_C := 0x20\<rparr>)"
proof -
  have h: "fm_new2flag (counting_engine 0) (m_fm (blank_chip\<lparr>m_port_C := 0x20\<rparr>)) = 0"
    by (simp add: counting_engine_def)
  show ?thesis
    using pcm_port_gated_by_new2 [OF h, of 5 3 "0x55"] by simp
qed

subsection \<open>The active flag\<close>

lemma live_ok_env:
  assumes "env_effect y y'" and "(active y \<noteq> 0) = (octave y \<noteq> 8)"
  shows "live_ok y'"
  using assms by (auto simp: env_effect_def same_voice_def live_ok_def split: if_splits)

lemma live_ok_compute_envelope:
  assumes "live_ok y"
  shows "live_ok (compute_envelope y)"
  using compute_envelope_effect [of y] assms
  by (auto simp: env_effect_def same_voice_def live_ok_def split: if_splits)

lemma live_ok_cong:
  "active a = active b \<Longrightarrow> octave a = octave b \<Longrightarrow> env_step a = env_step b \<Longrightarrow> live_ok a = live_ok b"
  by (simp add: live_ok_def)

lemma live_ok_freq: "live_ok (compute_freq_step y) = live_ok y"
  by (rule live_ok_cong) (simp_all add: compute_freq_step_fields)

lemma live_ok_retrigger:
  assumes "live_ok y"
  shows "live_ok (retrigger_sample y)"
  using assms retrigger_sample_effect(5) [of y]
  by (auto simp: live_ok_def retrigger_sample_effect(1,4))

lemma octave_compute_envelope: "octave (compute_envelope y) = octave y"
  using compute_envelope_same [of y] by (simp add: same_voice_def)

lemma live_ok_release_done:
  "live_ok (compute_envelope (y\<lparr>env_step := 5\<rparr>))"
  using compute_envelope_effect [of "y\<lparr>env_step := 5\<rparr>"]
  by (simp add: env_effect_def live_ok_def)

lemma live_ok_released:
  assumes "live_ok y" and "active y \<noteq> 0"
  shows "live_ok (compute_envelope (y\<lparr>env_step := 4\<rparr>))"
  using assms by (simp add: live_ok_def release_phase octave_compute_envelope)

lemma C_w_slot_octave:
  "octave (C_w_slot grp old data sl) = (if grp = 2 then octave_of data else octave sl)"
  by (simp add: C_w_slot_def Let_def octave_of_def octave_compute_envelope
      compute_freq_step_fields retrigger_sample_effect)

lemma C_w_slot_key_cases:
  "C_w_slot 4 old data sl =
     (let s1 = sl\<lparr>CH := drop_bit 4 (uint data AND 0x10), pan := uint data AND 0xf,
                    DAMP := drop_bit 6 (uint data AND 0x40)\<rparr>
      in if uint data AND 0x80 \<noteq> 0
         then (if KEY_ON s1 \<noteq> 0
               then (if (data XOR old) AND 0x40 \<noteq> 0 then compute_envelope s1 else s1)
               else (retrigger_sample s1)\<lparr>KEY_ON := drop_bit 7 (uint data AND 0x80)\<rparr>)
         else if active s1 \<noteq> 0
         then (compute_envelope (s1\<lparr>env_step := 4\<rparr>))\<lparr>KEY_ON := drop_bit 7 (uint data AND 0x80)\<rparr>
         else s1\<lparr>KEY_ON := drop_bit 7 (uint data AND 0x80)\<rparr>)"
  unfolding C_w_slot_def Let_def by simp

lemma C_w_slot_live_other:
  assumes "live_ok sl" and "grp \<noteq> 2"
  shows "live_ok (C_w_slot grp old data sl)"
proof -
  have upd: "live_ok (sl\<lparr>wave := a, F_NUMBER := b\<rparr>) = live_ok sl"
    "live_ok (sl\<lparr>TL := a, LD := b\<rparr>) = live_ok sl"
    "live_ok (sl\<lparr>CH := a, pan := b, DAMP := c\<rparr>) = live_ok sl"
    "live_ok (sl\<lparr>LFO := a, VIB := b\<rparr>) = live_ok sl"
    "live_ok (sl\<lparr>AR := a, D1R := b\<rparr>) = live_ok sl"
    "live_ok (sl\<lparr>DL := a, D2R := b\<rparr>) = live_ok sl"
    "live_ok (sl\<lparr>RC := a, RR := b\<rparr>) = live_ok sl"
    "live_ok (sl\<lparr>AM := a\<rparr>) = live_ok sl" for a b c
    by (simp_all add: live_ok_def)
  have key: "live_ok (y\<lparr>KEY_ON := k\<rparr>) = live_ok y" for y k
    by (simp add: live_ok_def)
  have "grp = 1 \<or> grp = 3 \<or> grp = 4 \<or> grp = 5 \<or> grp = 6 \<or> grp = 7 \<or> grp = 8
      \<or> grp = 9 \<or> (grp = 0 \<or> 9 < grp)"
    using assms(2) by arith
  then consider "grp = 1" | "grp = 3" | "grp = 4" | "grp = 5" | "grp = 6" | "grp = 7" | "grp = 8"
    | "grp = 9" | "grp = 0 \<or> 9 < grp"
    by blast
  then show ?thesis
  proof cases
    case 1
    show ?thesis
      unfolding 1 using assms(1) by (simp add: C_w_slot_def Let_def live_ok_compute_envelope live_ok_freq upd)
  next
    case 2
    show ?thesis unfolding 2 using assms(1) by (simp add: C_w_slot_def Let_def upd)
  next
    case 3
    define s1 where "s1 = sl\<lparr>CH := drop_bit 4 (uint data AND 0x10), pan := uint data AND 0xf,
      DAMP := drop_bit 6 (uint data AND 0x40)\<rparr>"
    have l1: "live_ok s1" using assms(1) by (simp add: s1_def upd)
    have a: "live_ok (compute_envelope s1)" by (rule live_ok_compute_envelope [OF l1])
    have b: "live_ok (retrigger_sample s1)" by (rule live_ok_retrigger [OF l1])
    have c: "active s1 \<noteq> 0 \<Longrightarrow> live_ok (compute_envelope (s1\<lparr>env_step := 4\<rparr>))"
      by (rule live_ok_released [OF l1])
    have eq: "C_w_slot 4 old data sl =
      (if uint data AND 0x80 \<noteq> 0
         then (if KEY_ON s1 \<noteq> 0
               then (if (data XOR old) AND 0x40 \<noteq> 0 then compute_envelope s1 else s1)
               else (retrigger_sample s1)\<lparr>KEY_ON := drop_bit 7 (uint data AND 0x80)\<rparr>)
         else if active s1 \<noteq> 0
         then (compute_envelope (s1\<lparr>env_step := 4\<rparr>))\<lparr>KEY_ON := drop_bit 7 (uint data AND 0x80)\<rparr>
         else s1\<lparr>KEY_ON := drop_bit 7 (uint data AND 0x80)\<rparr>)"
      unfolding C_w_slot_key_cases Let_def s1_def ..
    show ?thesis
      unfolding 3 eq using l1 a b c by (auto simp: key)
  next
    case 4
    show ?thesis unfolding 4 using assms(1) by (simp add: C_w_slot_def Let_def upd)
  next
    case 5
    show ?thesis
      unfolding 5 using assms(1) by (simp add: C_w_slot_def Let_def live_ok_compute_envelope upd)
  next
    case 6
    show ?thesis
      unfolding 6 using assms(1) by (simp add: C_w_slot_def Let_def live_ok_compute_envelope upd)
  next
    case 7
    show ?thesis
      unfolding 7 using assms(1) by (simp add: C_w_slot_def Let_def live_ok_compute_envelope upd)
  next
    case 8
    show ?thesis unfolding 8 using assms(1) by (simp add: C_w_slot_def Let_def upd)
  next
    case 9
    then have "grp \<noteq> 1" "grp \<noteq> 2" "grp \<noteq> 3" "grp \<noteq> 4" "grp \<noteq> 5" "grp \<noteq> 6"
      "grp \<noteq> 7" "grp \<noteq> 8" "grp \<noteq> 9"
      by auto
    then have "C_w_slot grp old data sl = sl"
      by (simp add: C_w_slot_def)
    then show ?thesis using assms(1) by simp
  qed
qed

lemma C_w_slot_live_octave:
  assumes "live_ok sl" and "octave sl = octave_of old"
  shows "live_ok (C_w_slot 2 old data sl)"
proof (cases "data = old")
  case True
  have "C_w_slot 2 old data sl = sl\<lparr>F_NUMBER := (F_NUMBER sl AND 0x07f) OR push_bit 7 (uint data AND 0x07),
      preverb := drop_bit 3 (uint data AND 0x8), octave := drop_bit 4 (uint data AND 0xf0)\<rparr>"
    using True by (simp add: C_w_slot_def Let_def)
  moreover have "drop_bit 4 (uint data AND 0xf0) = octave sl"
    using True assms(2) by (simp add: octave_of_def)
  ultimately show ?thesis
    using assms(1) by (simp add: live_ok_def)
next
  case False
  define s2 where "s2 = sl\<lparr>F_NUMBER := (F_NUMBER sl AND 0x07f) OR push_bit 7 (uint data AND 0x07),
      preverb := drop_bit 3 (uint data AND 0x8), octave := drop_bit 4 (uint data AND 0xf0)\<rparr>"
  define s3 where "s3 = s2\<lparr>active := (if octave s2 \<noteq> 8 then 1 else 0)\<rparr>"
  define y where "y = compute_freq_step (s3\<lparr>env_preverb := 0\<rparr>)"
  have c: "C_w_slot 2 old data sl = (if active s3 \<noteq> 0 then compute_envelope y else s3)"
    using False unfolding C_w_slot_def Let_def s2_def [symmetric] s3_def [symmetric] y_def by simp
  have pre: "(active y \<noteq> 0) = (octave y \<noteq> 8)"
    by (simp add: y_def compute_freq_step_fields s3_def)
  have a: "live_ok (compute_envelope y)"
    by (rule live_ok_env [OF compute_envelope_effect pre])
  have b: "active s3 = 0 \<Longrightarrow> live_ok s3"
    by (auto simp: s3_def live_ok_def split: if_splits)
  show ?thesis unfolding c using a b by simp
qed

lemma chip_inv_iff:
  "chip_inv s \<longleftrightarrow> (\<forall>i<24. live_ok (m_slots s i) \<and> octave_tied i s)"
  by (auto simp: chip_inv_def list_all_iff)

lemma C_w_direct_slots:
  "m_slots (C_w_direct reg data s) =
     (if 0x08 \<le> reg \<and> reg \<le> 0xf7
      then (m_slots s)((unat reg - 8) mod 24 :=
             C_w_slot ((unat reg - 8) div 24) (m_pcmregs s reg) data (m_slots s ((unat reg - 8) mod 24)))
      else m_slots s)"
  by (simp add: C_w_direct_def Let_def)

lemma C_w_direct_pcmregs:
  "r \<noteq> reg \<Longrightarrow> m_pcmregs (C_w_direct reg data s) r = m_pcmregs s r"
  "reg \<noteq> 3 \<Longrightarrow> m_pcmregs (C_w_direct reg data s) reg = data"
  by (auto simp: C_w_direct_def Let_def)

lemma octave_reg_eq:
  fixes reg :: u8
  assumes "i < 24"
  shows "(reg = of_nat (56 + i)) = (unat reg = 56 + i)"
proof -
  have "unat (of_nat (56 + i) :: u8) = 56 + i"
    using assms by (simp only: unat_of_nat) simp
  then show ?thesis by (metis word_unat_eq_iff)
qed

lemma group2_arith:
  fixes n i :: nat
  assumes "i < 24"
  shows "(n = 48 + i) = (n div 24 = 2 \<and> n mod 24 = i)"
proof
  assume "n = 48 + i"
  then have n: "n = i + 2 * 24" by simp
  show "n div 24 = 2 \<and> n mod 24 = i"
    unfolding n using assms by (simp only: div_mult_self1 mod_mult_self1) simp
next
  assume a: "n div 24 = 2 \<and> n mod 24 = i"
  have "n = 24 * (n div 24) + n mod 24" by (simp only: mult_div_mod_eq)
  then show "n = 48 + i" using a by simp
qed

lemma slot_reg_group2:
  fixes reg :: u8
  assumes "0x08 \<le> reg" and "i < 24"
  shows "(unat reg = 56 + i) = ((unat reg - 8) div 24 = 2 \<and> (unat reg - 8) mod 24 = i)"
proof -
  have "8 \<le> unat reg" using assms(1) by (simp add: word_le_nat_alt)
  then have "(unat reg = 56 + i) = (unat reg - 8 = 48 + i)" by auto
  then show ?thesis using group2_arith [OF assms(2), of "unat reg - 8"] by simp
qed

lemma octave_reg_range:
  fixes reg :: u8
  assumes "i < 24" and "unat reg = 56 + i"
  shows "0x08 \<le> reg" and "reg \<le> 0xf7" and "reg \<noteq> 3"
proof -
  show "0x08 \<le> reg" "reg \<le> 0xf7" unfolding word_le_nat_alt using assms by simp_all
  show "reg \<noteq> 3" using assms(2) by auto
qed

lemma C_w_direct_tie:
  assumes "i < 24" and "octave_tied i s \<or> unat reg = 56 + i"
  shows "octave_tied i (C_w_direct reg data s)"
proof (cases "unat reg = 56 + i")
  case True
  note rng = octave_reg_range [OF assms(1) True]
  have g: "(unat reg - 8) div 24 = 2" "(unat reg - 8) mod 24 = i"
    using slot_reg_group2 [OF rng(1) assms(1)] True by simp_all
  have r: "of_nat (56 + i) = reg" using True octave_reg_eq [OF assms(1), of reg] by simp
  show ?thesis
    unfolding octave_tied_def r C_w_direct_pcmregs(2) [OF rng(3)]
    by (simp add: C_w_direct_slots rng g C_w_slot_octave)
next
  case False
  then have tied: "octave_tied i s" using assms(2) by simp
  have ne: "of_nat (56 + i) \<noteq> reg" using False octave_reg_eq [OF assms(1), of reg] by auto
  have "octave (m_slots (C_w_direct reg data s) i) = octave (m_slots s i)"
  proof (cases "0x08 \<le> reg \<and> reg \<le> 0xf7")
    case True
    then have "\<not> ((unat reg - 8) div 24 = 2 \<and> (unat reg - 8) mod 24 = i)"
      using slot_reg_group2 [of reg i] assms(1) False by simp
    then show ?thesis
      using True by (auto simp: C_w_direct_slots C_w_slot_octave)
  next
    case False
    then show ?thesis by (auto simp: C_w_direct_slots)
  qed
  then show ?thesis
    using tied unfolding octave_tied_def C_w_direct_pcmregs(1) [OF ne] by simp
qed

lemma C_w_direct_live:
  assumes "chip_inv s" and "i < 24"
  shows "live_ok (m_slots (C_w_direct reg data s) i)"
proof (cases "0x08 \<le> reg \<and> reg \<le> 0xf7 \<and> (unat reg - 8) mod 24 = i")
  case True
  have li: "live_ok (m_slots s i)" and ti: "octave_tied i s"
    using assms by (simp_all add: chip_inv_iff)
  have sl: "m_slots (C_w_direct reg data s) i =
      C_w_slot ((unat reg - 8) div 24) (m_pcmregs s reg) data (m_slots s i)"
    using True by (simp add: C_w_direct_slots)
  show ?thesis
  proof (cases "(unat reg - 8) div 24 = 2")
    case g2: True
    have "unat reg = 56 + i" using slot_reg_group2 [of reg i] True g2 assms(2) by simp
    then have "of_nat (56 + i) = reg" using octave_reg_eq [OF assms(2), of reg] by simp
    then have "octave (m_slots s i) = octave_of (m_pcmregs s reg)"
      using ti by (simp add: octave_tied_def)
    then show ?thesis
      unfolding sl g2 by (rule C_w_slot_live_octave [OF li])
  next
    case False
    then show ?thesis unfolding sl by (rule C_w_slot_live_other [OF li])
  qed
next
  case False
  then have "m_slots (C_w_direct reg data s) i = m_slots s i"
    by (auto simp: C_w_direct_slots)
  then show ?thesis using assms by (simp add: chip_inv_iff)
qed

lemma C_w_direct_inv:
  assumes "chip_inv s"
  shows "chip_inv (C_w_direct reg data s)"
  unfolding chip_inv_iff
proof (intro allI impI conjI)
  fix i :: nat
  assume i: "i < 24"
  show "live_ok (m_slots (C_w_direct reg data s) i)" by (rule C_w_direct_live [OF assms i])
  have "octave_tied i s" using assms i by (simp add: chip_inv_iff)
  then show "octave_tied i (C_w_direct reg data s)" by (intro C_w_direct_tie [OF i]) simp
qed

subsection \<open>Loading a wave header\<close>

lemma compute_envelope_fields:
  "wave (compute_envelope y) = wave y" "F_NUMBER (compute_envelope y) = F_NUMBER y"
  "octave (compute_envelope y) = octave y" "preverb (compute_envelope y) = preverb y"
  "DAMP (compute_envelope y) = DAMP y" "CH (compute_envelope y) = CH y"
  "LD (compute_envelope y) = LD y" "TL (compute_envelope y) = TL y"
  "pan (compute_envelope y) = pan y" "LFO (compute_envelope y) = LFO y"
  "VIB (compute_envelope y) = VIB y" "AM (compute_envelope y) = AM y"
  "AR (compute_envelope y) = AR y" "D1R (compute_envelope y) = D1R y"
  "DL (compute_envelope y) = DL y" "D2R (compute_envelope y) = D2R y"
  "RC (compute_envelope y) = RC y" "RR (compute_envelope y) = RR y"
  "step (compute_envelope y) = step y" "stepptr (compute_envelope y) = stepptr y"
  "KEY_ON (compute_envelope y) = KEY_ON y" "bits (compute_envelope y) = bits y"
  "startaddr (compute_envelope y) = startaddr y" "loopaddr (compute_envelope y) = loopaddr y"
  "endaddr (compute_envelope y) = endaddr y"
  using compute_envelope_same [of y] by (simp_all add: same_voice_def)

lemma env_drift_refl: "env_drift a a"
  by (simp add: env_drift_def)

lemma env_drift_trans: "env_drift a b \<Longrightarrow> env_drift b c \<Longrightarrow> env_drift a c"
  by (auto simp: env_drift_def split: if_splits)

lemma env_drift_cong:
  "active a' = active a \<Longrightarrow> env_step a' = env_step a \<Longrightarrow> env_drift a' b = env_drift a b"
  by (simp add: env_drift_def)

lemma env_drift_compute:
  assumes "active y \<noteq> 0"
  shows "env_drift y (compute_envelope y)"
  using compute_envelope_effect [of y] assms
  by (auto simp: env_effect_def env_drift_def split: if_splits)

text \<open>The five register groups a wave header fills.\<close>

lemma C_w_slot_5: "C_w_slot 5 old data sl = sl\<lparr>LFO := drop_bit 3 (uint data) AND 0x7, VIB := uint data AND 0x7\<rparr>"
  by (simp add: C_w_slot_def Let_def)

lemma C_w_slot_6:
  "C_w_slot 6 old data sl =
     (if active sl \<noteq> 0 \<and> data \<noteq> old
      then compute_envelope (sl\<lparr>AR := drop_bit 4 (uint data), D1R := uint data AND 0xf\<rparr>)
      else sl\<lparr>AR := drop_bit 4 (uint data), D1R := uint data AND 0xf\<rparr>)"
  by (simp add: C_w_slot_def Let_def)

lemma C_w_slot_7:
  "C_w_slot 7 old data sl =
     (if active sl \<noteq> 0 \<and> data \<noteq> old
      then compute_envelope (sl\<lparr>DL := drop_bit 4 (uint data), D2R := uint data AND 0xf\<rparr>)
      else sl\<lparr>DL := drop_bit 4 (uint data), D2R := uint data AND 0xf\<rparr>)"
  by (simp add: C_w_slot_def Let_def)

lemma C_w_slot_8:
  "C_w_slot 8 old data sl =
     (if active sl \<noteq> 0 \<and> data \<noteq> old
      then compute_envelope (sl\<lparr>RC := drop_bit 4 (uint data), RR := uint data AND 0xf\<rparr>)
      else sl\<lparr>RC := drop_bit 4 (uint data), RR := uint data AND 0xf\<rparr>)"
  by (simp add: C_w_slot_def Let_def)

lemma C_w_slot_9: "C_w_slot 9 old data sl = sl\<lparr>AM := uint data AND 0x7\<rparr>"
  by (simp add: C_w_slot_def Let_def)

lemmas C_w_slot_header = C_w_slot_5 C_w_slot_6 C_w_slot_7 C_w_slot_8 C_w_slot_9

lemma env_drift_field:
  "env_drift sl (sl\<lparr>LFO := x, VIB := y\<rparr>)" "env_drift sl (sl\<lparr>AM := x\<rparr>)"
  "env_drift sl (sl\<lparr>AR := x, D1R := y\<rparr>)" "env_drift sl (sl\<lparr>DL := x, D2R := y\<rparr>)"
  "env_drift sl (sl\<lparr>RC := x, RR := y\<rparr>)"
  by (simp_all add: env_drift_def)

lemma env_drift_compute_upd:
  assumes "active z = active sl" and "env_step z = env_step sl" and "active sl \<noteq> 0"
  shows "env_drift sl (compute_envelope z)"
proof -
  have "env_drift z (compute_envelope z)" using assms by (intro env_drift_compute) simp
  then show ?thesis using env_drift_cong [OF assms(1,2)] by simp
qed

lemma C_w_slot_header_drift:
  "env_drift sl (C_w_slot 5 old data sl)" "env_drift sl (C_w_slot 6 old data sl)"
  "env_drift sl (C_w_slot 7 old data sl)" "env_drift sl (C_w_slot 8 old data sl)"
  "env_drift sl (C_w_slot 9 old data sl)"
  by (simp_all add: C_w_slot_header env_drift_field env_drift_compute_upd)

lemma unat_slot_reg:
  assumes "snum < 24" and "k \<le> 9"
  shows "unat (slot_reg snum k) = 8 + snum + 24 * k"
proof -
  have "8 + snum + 24 * k < 2 ^ LENGTH(8)" using assms by simp
  then show ?thesis unfolding slot_reg_def by (simp only: unat_of_nat mod_less)
qed

lemma slot_reg_inj:
  assumes "snum < 24" and "k \<le> 9" and "j \<le> 9"
  shows "(slot_reg snum k = slot_reg snum j) = (k = j)"
proof -
  have "(slot_reg snum k = slot_reg snum j) = (unat (slot_reg snum k) = unat (slot_reg snum j))"
    by (rule word_unat_eq_iff)
  then show ?thesis by (simp add: unat_slot_reg assms)
qed

lemma slot_reg_0:
  fixes reg :: u8
  assumes "unat reg = 8 + snum"
  shows "reg = slot_reg snum 0"
proof -
  have "reg = of_nat (unat reg)" by simp
  then show ?thesis unfolding assms slot_reg_def by simp
qed

lemma C_w_direct_nested:
  assumes "snum < 24" and "k \<le> 9"
  shows "m_slots (C_w_direct (slot_reg snum k) d s') =
           (m_slots s')(snum := C_w_slot k (m_pcmregs s' (slot_reg snum k)) d (m_slots s' snum))"
    and "m_pcmregs (C_w_direct (slot_reg snum k) d s') = (m_pcmregs s')(slot_reg snum k := d)"
    and "m_space (C_w_direct (slot_reg snum k) d s') = m_space s'"
    and "m_wavetblhdr (C_w_direct (slot_reg snum k) d s') = m_wavetblhdr s'"
  by (simp_all add: C_w_direct_slot_reg [OF unat_slot_reg [OF assms] assms])

lemma header_fold:
  "fold (\<lambda>i. C_w_direct (of_nat (8 + snum + (i - 2) * 24)) (p i)) [7 ..< 12] s1 =
     C_w_direct (slot_reg snum 9) (p 11) (C_w_direct (slot_reg snum 8) (p 10)
       (C_w_direct (slot_reg snum 7) (p 9) (C_w_direct (slot_reg snum 6) (p 8)
         (C_w_direct (slot_reg snum 5) (p 7) s1))))"
proof -
  have l: "[7 ..< 12] = [7, 8, 9, 10, 11 :: nat]" by (simp add: upt_rec)
  have r: "of_nat (8 + snum + (7 - 2) * 24) = slot_reg snum 5"
    "of_nat (8 + snum + (8 - 2) * 24) = slot_reg snum 6"
    "of_nat (8 + snum + (9 - 2) * 24) = slot_reg snum 7"
    "of_nat (8 + snum + (10 - 2) * 24) = slot_reg snum 8"
    "of_nat (8 + snum + (11 - 2) * 24) = slot_reg snum 9"
    by (simp_all add: slot_reg_def)
  show ?thesis unfolding l fold_simps o_apply r by (rule refl)
qed

lemma C_w_wave_unfold:
  fixes reg :: u8
  assumes "unat reg = 8 + snum" and "snum < 24"
  shows "C_w fm reg data s =
        (let slot = m_slots s snum;
             slot1 = slot\<lparr>wave := (wave slot AND 0x100) OR uint data\<rparr>;
             p = wave_header s (wave slot1);
             slot2 = slot1\<lparr>bits := drop_bit 6 (uint (p 0) AND 0xc0),
                          startaddr := ucast (p 2) OR push_bit 8 (ucast (p 1))
                                         OR push_bit 16 (ucast (p 0) AND 0x3f),
                          loopaddr := push_bit 16 (ucast (p 4)) OR push_bit 24 (ucast (p 3)),
                          endaddr := ((push_bit 16 (ucast (p 6)) OR push_bit 24 (ucast (p 5)))
                                        - 0x00010000) XOR 0xffff0000\<rparr>;
             s1 = s\<lparr>m_slots := (m_slots s)(snum := slot2)\<rparr>;
             s2 = C_w_direct (slot_reg snum 9) (p 11) (C_w_direct (slot_reg snum 8) (p 10)
                    (C_w_direct (slot_reg snum 7) (p 9) (C_w_direct (slot_reg snum 6) (p 8)
                      (C_w_direct (slot_reg snum 5) (p 7) s1))));
             s3 = s2\<lparr>m_fm := fm_set_reset_status fm STATUS_LD 0 (m_fm s2), m_timer_ld := Some 10\<rparr>;
             slot3 = m_slots s3 snum;
             slot4 = (if KEY_ON slot3 \<noteq> 0 then retrigger_sample slot3
                      else if active slot3 \<noteq> 0 then compute_envelope (slot3\<lparr>env_step := 5\<rparr>)
                      else slot3)
         in s3\<lparr>m_slots := (m_slots s3)(snum := slot4), m_pcmregs := (m_pcmregs s3)(reg := data)\<rparr>)"
proof -
  have r0: "unat reg = 8 + snum + 24 * 0" using assms(1) by simp
  note dec = slot_reg_decode [OF r0 assms(2)]
  show ?thesis
    unfolding C_w_def header_fold by (simp only: dec if_True simp_thms Let_def)
qed

text \<open>
  The write to a wave-number register, taken apart: \<open>sl3\<close> is the slot after the header
  members are loaded and the five nested register writes are done, just before the key
  test.
\<close>

lemma C_w_wave:
  fixes reg :: u8
  assumes r: "unat reg = 8 + snum" and n: "snum < 24"
  obtains sl3 where
    "m_slots (C_w fm reg data s) =
       (m_slots s)(snum := (if KEY_ON sl3 \<noteq> 0 then retrigger_sample sl3
                            else if active sl3 \<noteq> 0 then compute_envelope (sl3\<lparr>env_step := 5\<rparr>)
                            else sl3))"
    and "env_drift (m_slots s snum) sl3"
    and "octave sl3 = octave (m_slots s snum) \<and> KEY_ON sl3 = KEY_ON (m_slots s snum)
         \<and> wave sl3 = (wave (m_slots s snum) AND 0x100) OR uint data"
    and "\<And>p. p = wave_header s ((wave (m_slots s snum) AND 0x100) OR uint data) \<Longrightarrow>
           bits sl3 = drop_bit 6 (uint (p 0) AND 0xc0)
           \<and> startaddr sl3 = ucast (p 2) OR push_bit 8 (ucast (p 1)) OR push_bit 16 (ucast (p 0) AND 0x3f)
           \<and> loopaddr sl3 = push_bit 16 (ucast (p 4)) OR push_bit 24 (ucast (p 3))
           \<and> endaddr sl3 = ((push_bit 16 (ucast (p 6)) OR push_bit 24 (ucast (p 5))) - 0x00010000)
                               XOR 0xffff0000
           \<and> LFO sl3 = drop_bit 3 (uint (p 7)) AND 0x7 \<and> VIB sl3 = uint (p 7) AND 0x7
           \<and> AR sl3 = drop_bit 4 (uint (p 8)) \<and> D1R sl3 = uint (p 8) AND 0xf
           \<and> DL sl3 = drop_bit 4 (uint (p 9)) \<and> D2R sl3 = uint (p 9) AND 0xf
           \<and> RC sl3 = drop_bit 4 (uint (p 10)) \<and> RR sl3 = uint (p 10) AND 0xf
           \<and> AM sl3 = uint (p 11) AND 0x7
           \<and> m_pcmregs (C_w fm reg data s) =
               (m_pcmregs s)(slot_reg snum 5 := p 7, slot_reg snum 6 := p 8, slot_reg snum 7 := p 9,
                  slot_reg snum 8 := p 10, slot_reg snum 9 := p 11, reg := data)"
proof -
  define sl1 where "sl1 = (m_slots s snum)\<lparr>wave := (wave (m_slots s snum) AND 0x100) OR uint data\<rparr>"
  define p where "p = wave_header s (wave sl1)"
  define sl2 where "sl2 = sl1\<lparr>bits := drop_bit 6 (uint (p 0) AND 0xc0),
      startaddr := ucast (p 2) OR push_bit 8 (ucast (p 1)) OR push_bit 16 (ucast (p 0) AND 0x3f),
      loopaddr := push_bit 16 (ucast (p 4)) OR push_bit 24 (ucast (p 3)),
      endaddr := ((push_bit 16 (ucast (p 6)) OR push_bit 24 (ucast (p 5))) - 0x00010000) XOR 0xffff0000\<rparr>"
  define s1 where "s1 = s\<lparr>m_slots := (m_slots s)(snum := sl2)\<rparr>"
  define t5 where "t5 = C_w_direct (slot_reg snum 5) (p 7) s1"
  define t6 where "t6 = C_w_direct (slot_reg snum 6) (p 8) t5"
  define t7 where "t7 = C_w_direct (slot_reg snum 7) (p 9) t6"
  define t8 where "t8 = C_w_direct (slot_reg snum 8) (p 10) t7"
  define t9 where "t9 = C_w_direct (slot_reg snum 9) (p 11) t8"
  define sl3 where "sl3 = m_slots t9 snum"
  define s3 where "s3 = t9\<lparr>m_fm := fm_set_reset_status fm STATUS_LD 0 (m_fm t9), m_timer_ld := Some 10\<rparr>"
  have sl3': "m_slots s3 snum = sl3" by (simp add: s3_def sl3_def)
  define sl4 where "sl4 = (if KEY_ON sl3 \<noteq> 0 then retrigger_sample sl3
      else if active sl3 \<noteq> 0 then compute_envelope (sl3\<lparr>env_step := 5\<rparr>) else sl3)"
  have cw: "C_w fm reg data s = s3\<lparr>m_slots := (m_slots s3)(snum := sl4), m_pcmregs := (m_pcmregs s3)(reg := data)\<rparr>"
    unfolding C_w_wave_unfold [OF r n] Let_def sl4_def s3_def
    unfolding sl3_def s3_def t9_def t8_def t7_def t6_def t5_def s1_def sl2_def p_def sl1_def
    by simp
  have k: "(5::nat) \<le> 9" "(6::nat) \<le> 9" "(7::nat) \<le> 9" "(8::nat) \<le> 9" "(9::nat) \<le> 9" by simp_all
  have m5: "m_slots t5 = (m_slots s1)(snum := C_w_slot 5 (m_pcmregs s1 (slot_reg snum 5)) (p 7) (m_slots s1 snum))"
    and q5: "m_pcmregs t5 = (m_pcmregs s1)(slot_reg snum 5 := p 7)"
    unfolding t5_def by (simp_all only: C_w_direct_nested [OF n k(1)])
  have m6: "m_slots t6 = (m_slots t5)(snum := C_w_slot 6 (m_pcmregs t5 (slot_reg snum 6)) (p 8) (m_slots t5 snum))"
    and q6: "m_pcmregs t6 = (m_pcmregs t5)(slot_reg snum 6 := p 8)"
    unfolding t6_def by (simp_all only: C_w_direct_nested [OF n k(2)])
  have m7: "m_slots t7 = (m_slots t6)(snum := C_w_slot 7 (m_pcmregs t6 (slot_reg snum 7)) (p 9) (m_slots t6 snum))"
    and q7: "m_pcmregs t7 = (m_pcmregs t6)(slot_reg snum 7 := p 9)"
    unfolding t7_def by (simp_all only: C_w_direct_nested [OF n k(3)])
  have m8: "m_slots t8 = (m_slots t7)(snum := C_w_slot 8 (m_pcmregs t7 (slot_reg snum 8)) (p 10) (m_slots t7 snum))"
    and q8: "m_pcmregs t8 = (m_pcmregs t7)(slot_reg snum 8 := p 10)"
    unfolding t8_def by (simp_all only: C_w_direct_nested [OF n k(4)])
  have m9: "m_slots t9 = (m_slots t8)(snum := C_w_slot 9 (m_pcmregs t8 (slot_reg snum 9)) (p 11) (m_slots t8 snum))"
    and q9: "m_pcmregs t9 = (m_pcmregs t8)(slot_reg snum 9 := p 11)"
    unfolding t9_def by (simp_all only: C_w_direct_nested [OF n k(5)])
  define a5 where "a5 = m_slots t5 snum"
  define a6 where "a6 = m_slots t6 snum"
  define a7 where "a7 = m_slots t7 snum"
  define a8 where "a8 = m_slots t8 snum"
  obtain o5 o6 o7 o8 o9 where
    a5: "a5 = C_w_slot 5 o5 (p 7) sl2" and a6: "a6 = C_w_slot 6 o6 (p 8) a5"
    and a7: "a7 = C_w_slot 7 o7 (p 9) a6" and a8: "a8 = C_w_slot 8 o8 (p 10) a7"
    and a9: "sl3 = C_w_slot 9 o9 (p 11) a8"
    unfolding a5_def a6_def a7_def a8_def sl3_def m5 m6 m7 m8 m9 by (simp add: s1_def)
  have others: "m_slots t9 = (m_slots s)(snum := sl3)"
    unfolding sl3_def m9 m8 m7 m6 m5 by (simp add: s1_def)
  have regs: "m_pcmregs t9 = (m_pcmregs s)(slot_reg snum 5 := p 7, slot_reg snum 6 := p 8,
      slot_reg snum 7 := p 9, slot_reg snum 8 := p 10, slot_reg snum 9 := p 11)"
    unfolding q9 q8 q7 q6 q5 by (simp add: s1_def)
  have slots: "m_slots (C_w fm reg data s) = (m_slots s)(snum := sl4)"
    unfolding cw by (simp add: s3_def others)
  have pcm: "m_pcmregs (C_w fm reg data s) = (m_pcmregs s)(slot_reg snum 5 := p 7, slot_reg snum 6 := p 8,
      slot_reg snum 7 := p 9, slot_reg snum 8 := p 10, slot_reg snum 9 := p 11, reg := data)"
    unfolding cw by (simp add: s3_def regs)
  have d2: "env_drift (m_slots s snum) sl2" by (simp add: sl2_def sl1_def env_drift_def)
  have drift: "env_drift (m_slots s snum) sl3"
    unfolding a9
    by (rule env_drift_trans [OF env_drift_trans [OF env_drift_trans [OF env_drift_trans
        [OF env_drift_trans [OF d2 C_w_slot_header_drift(1) [of sl2 o5 "p 7", folded a5]]
          C_w_slot_header_drift(2) [of a5 o6 "p 8", folded a6]]
          C_w_slot_header_drift(3) [of a6 o7 "p 9", folded a7]]
          C_w_slot_header_drift(4) [of a7 o8 "p 10", folded a8]]
          C_w_slot_header_drift(5)])
  have f1: "octave sl3 = octave (m_slots s snum) \<and> KEY_ON sl3 = KEY_ON (m_slots s snum)
         \<and> wave sl3 = (wave (m_slots s snum) AND 0x100) OR uint data"
    unfolding a9 a8 a7 a6 a5
    by (simp add: C_w_slot_header compute_envelope_fields sl2_def sl1_def)
  have f2: "bits sl3 = drop_bit 6 (uint (p 0) AND 0xc0)
           \<and> startaddr sl3 = ucast (p 2) OR push_bit 8 (ucast (p 1)) OR push_bit 16 (ucast (p 0) AND 0x3f)
           \<and> loopaddr sl3 = push_bit 16 (ucast (p 4)) OR push_bit 24 (ucast (p 3))
           \<and> endaddr sl3 = ((push_bit 16 (ucast (p 6)) OR push_bit 24 (ucast (p 5))) - 0x00010000)
                               XOR 0xffff0000
           \<and> LFO sl3 = drop_bit 3 (uint (p 7)) AND 0x7 \<and> VIB sl3 = uint (p 7) AND 0x7
           \<and> AR sl3 = drop_bit 4 (uint (p 8)) \<and> D1R sl3 = uint (p 8) AND 0xf
           \<and> DL sl3 = drop_bit 4 (uint (p 9)) \<and> D2R sl3 = uint (p 9) AND 0xf
           \<and> RC sl3 = drop_bit 4 (uint (p 10)) \<and> RR sl3 = uint (p 10) AND 0xf
           \<and> AM sl3 = uint (p 11) AND 0x7"
    unfolding a9 a8 a7 a6 a5
    by (simp add: C_w_slot_header compute_envelope_fields sl2_def)
  have pw: "p = wave_header s ((wave (m_slots s snum) AND 0x100) OR uint data)"
    by (simp add: p_def sl1_def)
  show ?thesis
    by (rule that [of sl3]) (use slots drift f1 f2 pcm in \<open>simp_all add: sl4_def pw\<close>)
qed








subsection \<open>The active flag on the states the chip can reach\<close>

lemma wave_reg_decode:
  fixes reg :: u8
  assumes "0x08 \<le> reg \<and> reg \<le> 0xf7 \<and> (unat reg - 8) div 24 = 0"
  shows "unat reg = 8 + (unat reg - 8)" and "unat reg - 8 < 24"
proof -
  have "8 \<le> unat reg" using assms by (simp add: word_le_nat_alt)
  then show "unat reg = 8 + (unat reg - 8)" by simp
  have "(unat reg - 8) div 24 = 0" using assms by simp
  then show "unat reg - 8 < 24" by (simp only: div_eq_0_iff) simp
qed

lemma live_ok_drift:
  assumes "live_ok a" and "env_drift a b" and "octave b = octave a"
  shows "live_ok b"
  using assms by (auto simp: live_ok_def env_drift_def split: if_splits)

lemma C_w_wave_ex:
  fixes reg :: u8
  assumes r: "unat reg = 8 + snum" and n: "snum < 24"
  shows "\<exists>sl3 (p :: nat \<Rightarrow> u8). m_slots (C_w fm reg data s) =
       (m_slots s)(snum := (if KEY_ON sl3 \<noteq> 0 then retrigger_sample sl3
                            else if active sl3 \<noteq> 0 then compute_envelope (sl3\<lparr>env_step := 5\<rparr>)
                            else sl3))
     \<and> env_drift (m_slots s snum) sl3
     \<and> octave sl3 = octave (m_slots s snum)
     \<and> m_pcmregs (C_w fm reg data s) =
               (m_pcmregs s)(slot_reg snum 5 := p 7, slot_reg snum 6 := p 8, slot_reg snum 7 := p 9,
                  slot_reg snum 8 := p 10, slot_reg snum 9 := p 11, reg := data)"
proof (rule C_w_wave [OF r n, of fm data s])
  fix sl3
  assume a1: "m_slots (C_w fm reg data s) =
       (m_slots s)(snum := (if KEY_ON sl3 \<noteq> 0 then retrigger_sample sl3
                            else if active sl3 \<noteq> 0 then compute_envelope (sl3\<lparr>env_step := 5\<rparr>)
                            else sl3))"
    and a2: "env_drift (m_slots s snum) sl3"
    and a3: "octave sl3 = octave (m_slots s snum) \<and> KEY_ON sl3 = KEY_ON (m_slots s snum)
         \<and> wave sl3 = (wave (m_slots s snum) AND 0x100) OR uint data"
    and a4: "\<And>p. p = wave_header s ((wave (m_slots s snum) AND 0x100) OR uint data) \<Longrightarrow>
           bits sl3 = drop_bit 6 (uint (p 0) AND 0xc0)
           \<and> startaddr sl3 = ucast (p 2) OR push_bit 8 (ucast (p 1)) OR push_bit 16 (ucast (p 0) AND 0x3f)
           \<and> loopaddr sl3 = push_bit 16 (ucast (p 4)) OR push_bit 24 (ucast (p 3))
           \<and> endaddr sl3 = ((push_bit 16 (ucast (p 6)) OR push_bit 24 (ucast (p 5))) - 0x00010000)
                               XOR 0xffff0000
           \<and> LFO sl3 = drop_bit 3 (uint (p 7)) AND 0x7 \<and> VIB sl3 = uint (p 7) AND 0x7
           \<and> AR sl3 = drop_bit 4 (uint (p 8)) \<and> D1R sl3 = uint (p 8) AND 0xf
           \<and> DL sl3 = drop_bit 4 (uint (p 9)) \<and> D2R sl3 = uint (p 9) AND 0xf
           \<and> RC sl3 = drop_bit 4 (uint (p 10)) \<and> RR sl3 = uint (p 10) AND 0xf
           \<and> AM sl3 = uint (p 11) AND 0x7
           \<and> m_pcmregs (C_w fm reg data s) =
               (m_pcmregs s)(slot_reg snum 5 := p 7, slot_reg snum 6 := p 8, slot_reg snum 7 := p 9,
                  slot_reg snum 8 := p 10, slot_reg snum 9 := p 11, reg := data)"
  have o: "octave sl3 = octave (m_slots s snum)" using a3 by (rule conjunct1)
  note a5 = a4 [OF refl]
  have regs: "m_pcmregs (C_w fm reg data s) =
               (m_pcmregs s)(slot_reg snum 5 := wave_header s ((wave (m_slots s snum) AND 0x100) OR uint data) 7,
                  slot_reg snum 6 := wave_header s ((wave (m_slots s snum) AND 0x100) OR uint data) 8,
                  slot_reg snum 7 := wave_header s ((wave (m_slots s snum) AND 0x100) OR uint data) 9,
                  slot_reg snum 8 := wave_header s ((wave (m_slots s snum) AND 0x100) OR uint data) 10,
                  slot_reg snum 9 := wave_header s ((wave (m_slots s snum) AND 0x100) OR uint data) 11,
                  reg := data)"
    using a5 by (elim conjE)
  show ?thesis
    apply (rule exI [of _ sl3])
    apply (rule exI [of _ "wave_header s ((wave (m_slots s snum) AND 0x100) OR uint data)"])
    apply (intro conjI)
       apply (rule a1)
      apply (rule a2)
     apply (rule o)
    apply (rule regs)
    done
qed

lemma C_w_wave_slot:
  fixes reg :: u8
  assumes r: "unat reg = 8 + snum" and n: "snum < 24"
  shows "octave (m_slots (C_w fm reg data s) i) = octave (m_slots s i)"
    and "live_ok (m_slots s i) \<Longrightarrow> live_ok (m_slots (C_w fm reg data s) i)"
    and "unat r \<in> {32 ..< 128} \<Longrightarrow> m_pcmregs (C_w fm reg data s) r = m_pcmregs s r"
proof -
  from C_w_wave_ex [OF r n, of fm data s] obtain sl3 and p :: "nat \<Rightarrow> u8" where
    slots: "m_slots (C_w fm reg data s) =
       (m_slots s)(snum := (if KEY_ON sl3 \<noteq> 0 then retrigger_sample sl3
                            else if active sl3 \<noteq> 0 then compute_envelope (sl3\<lparr>env_step := 5\<rparr>)
                            else sl3))"
    and drift: "env_drift (m_slots s snum) sl3"
    and oct: "octave sl3 = octave (m_slots s snum)"
    and regs: "m_pcmregs (C_w fm reg data s) =
               (m_pcmregs s)(slot_reg snum 5 := p 7, slot_reg snum 6 := p 8, slot_reg snum 7 := p 9,
                  slot_reg snum 8 := p 10, slot_reg snum 9 := p 11, reg := data)"
    by (elim exE conjE)
  define sl4 where "sl4 = (if KEY_ON sl3 \<noteq> 0 then retrigger_sample sl3
                            else if active sl3 \<noteq> 0 then compute_envelope (sl3\<lparr>env_step := 5\<rparr>)
                            else sl3)"
  have slots': "m_slots (C_w fm reg data s) = (m_slots s)(snum := sl4)"
    unfolding sl4_def by (rule slots)
  have o4: "octave sl4 = octave (m_slots s snum)"
    unfolding sl4_def using oct by (simp add: retrigger_sample_effect(1) octave_compute_envelope)
  show "octave (m_slots (C_w fm reg data s) i) = octave (m_slots s i)"
    unfolding slots' using o4 by simp
  show "live_ok (m_slots (C_w fm reg data s) i)" if l: "live_ok (m_slots s i)"
  proof (cases "i = snum")
    case True
    have "live_ok (m_slots s snum)" using l True by simp
    then have l3: "live_ok sl3" by (rule live_ok_drift [OF _ drift oct])
    have "live_ok sl4"
      unfolding sl4_def using l3 by (simp add: live_ok_retrigger live_ok_release_done)
    then show ?thesis unfolding slots' True by simp
  next
    case False
    then show ?thesis unfolding slots' using l by simp
  qed
  show "m_pcmregs (C_w fm reg data s) r = m_pcmregs s r" if u: "unat r \<in> {32 ..< 128}"
  proof -
    have ne: "r \<noteq> slot_reg snum k" if "5 \<le> k" "k \<le> 9" for k
    proof
      assume "r = slot_reg snum k"
      then have "unat r = 8 + snum + 24 * k" using unat_slot_reg [OF n that(2)] by simp
      then show False using u that by simp
    qed
    have n0: "r \<noteq> reg" using u r n by auto
    have n5: "r \<noteq> slot_reg snum 5" by (rule ne) simp_all
    have n6: "r \<noteq> slot_reg snum 6" by (rule ne) simp_all
    have n7: "r \<noteq> slot_reg snum 7" by (rule ne) simp_all
    have n8: "r \<noteq> slot_reg snum 8" by (rule ne) simp_all
    have n9: "r \<noteq> slot_reg snum 9" by (rule ne) simp_all
    show ?thesis
      unfolding regs using n0 n5 n6 n7 n8 n9 by (simp only: fun_upd_apply if_False)
  qed
qed

lemma C_w_tie:
  assumes "i < 24" and "octave_tied i s \<or> unat reg = 56 + i"
  shows "octave_tied i (C_w fm reg data s)"
proof (cases "0x08 \<le> reg \<and> reg \<le> 0xf7 \<and> (unat reg - 8) div 24 = 0")
  case True
  note d = wave_reg_decode [OF True]
  have "unat reg \<noteq> 56 + i" using d by simp
  then have t: "octave_tied i s" using assms(2) by simp
  have "unat (of_nat (56 + i) :: u8) = 56 + i"
    using octave_reg_eq [OF assms(1), of "of_nat (56 + i)"] by simp
  then have u: "unat (of_nat (56 + i) :: u8) \<in> {32 ..< 128}"
    using assms(1) by simp
  show ?thesis
    using t unfolding octave_tied_def C_w_wave_slot(1) [OF d] C_w_wave_slot(3) [OF d u] .
next
  case False
  have "C_w fm reg data s = C_w_direct reg data s"
    unfolding C_w_def by (simp only: False if_False)
  then show ?thesis using C_w_direct_tie [OF assms] by simp
qed

lemma C_w_inv:
  assumes "chip_inv s"
  shows "chip_inv (C_w fm reg data s)"
proof (cases "0x08 \<le> reg \<and> reg \<le> 0xf7 \<and> (unat reg - 8) div 24 = 0")
  case True
  note d = wave_reg_decode [OF True]
  show ?thesis
    unfolding chip_inv_iff
  proof (intro allI impI conjI)
    fix i :: nat
    assume i: "i < 24"
    have "live_ok (m_slots s i)" using assms i by (simp add: chip_inv_iff)
    then show "live_ok (m_slots (C_w fm reg data s) i)" by (rule C_w_wave_slot(2) [OF d])
    have "octave_tied i s" using assms i by (simp add: chip_inv_iff)
    then show "octave_tied i (C_w fm reg data s)" by (intro C_w_tie [OF i]) simp
  qed
next
  case False
  have "C_w fm reg data s = C_w_direct reg data s"
    unfolding C_w_def by (simp only: False if_False)
  then show ?thesis using C_w_direct_inv [OF assms] by simp
qed

lemma parked_advance:
  assumes "parked sl"
  shows "parked (advance_envelope sl)"
proof -
  define s1 where "s1 = sl\<lparr>env_vol := env_vol sl + env_vol_step sl\<rparr>"
  have f: "env_vol s1 = push_bit 23 256" "env_vol_lim s1 = 0" "env_vol_step s1 = 0"
    "active s1 = 0" "env_step s1 = 3 \<or> env_step s1 = 5"
    using assms by (simp_all add: parked_def s1_def)
  have p1: "parked s1" using f by (simp add: parked_def)
  have neg: "\<not> 0 \<le> sint (env_vol s1 - env_vol_lim s1)" unfolding f by simp
  have ce: "parked (compute_envelope s1)"
    unfolding ce_terminal [OF f(5)] using f(5) by (simp add: parked_def)
  have "advance_envelope sl = s1 \<or> advance_envelope sl = compute_envelope s1"
    unfolding advance_envelope_def Let_def s1_def [symmetric] using neg by simp
  then show ?thesis using p1 ce by auto
qed

lemma playing_advance:
  assumes "playing sl"
  shows "playing (advance_envelope sl) \<or> parked (advance_envelope sl)"
proof -
  define s1 where "s1 = sl\<lparr>env_vol := env_vol sl + env_vol_step sl\<rparr>"
  define s2 where "s2 = sl\<lparr>env_vol := env_vol sl + env_vol_step sl, env_step := env_step sl + 1\<rparr>"
  have a: "active s1 \<noteq> 0" "env_step s1 \<noteq> 3" "env_step s1 \<noteq> 5"
    using assms by (simp_all add: playing_def s1_def)
  have b: "active s2 \<noteq> 0" "env_step s2 = env_step sl + 1"
    using assms by (simp_all add: playing_def s2_def)
  have p1: "playing s1" using a by (simp add: playing_def)
  have c1: "playing (compute_envelope s1)"
    using compute_envelope_effect [of s1] a by (auto simp: env_effect_def playing_def)
  have c2: "playing (compute_envelope s2) \<or> parked (compute_envelope s2)"
    using compute_envelope_effect [of s2] b(1)
    by (auto simp: env_effect_def playing_def parked_def split: if_splits)
  show ?thesis
    using advance_envelope_cases [of sl] p1 c1 c2 unfolding s1_def s2_def by auto
qed

lemma voice_sample_slot:
  "fst (snd (voice_sample s j (prev, sl, mix)))
     = advance_envelope ((loop_wrap sl)\<lparr>stepptr := stepptr (loop_wrap sl) + ucast (step (loop_wrap sl))\<rparr>)"
  by (simp add: voice_sample_def Let_def)

lemma voice_sample_keeps:
  assumes "playing sl \<or> parked sl"
  shows "(playing (fst (snd (voice_sample s j (prev, sl, mix))))
          \<or> parked (fst (snd (voice_sample s j (prev, sl, mix)))))
       \<and> octave (fst (snd (voice_sample s j (prev, sl, mix)))) = octave sl"
proof -
  define y where "y = (loop_wrap sl)\<lparr>stepptr := stepptr (loop_wrap sl) + ucast (step (loop_wrap sl))\<rparr>"
  have py: "playing y = playing sl" "parked y = parked sl" "octave y = octave sl"
    by (simp_all add: y_def loop_wrap_def playing_def parked_def)
  have o: "octave (advance_envelope y) = octave y"
    using advance_envelope_same [of y] by (simp add: same_voice_def)
  have "playing (advance_envelope y) \<or> parked (advance_envelope y)"
    using assms py playing_advance [of y] parked_advance [of y] by auto
  then show ?thesis
    unfolding voice_sample_slot y_def [symmetric] using o py(3) by simp
qed

lemma voice_fold_keeps:
  assumes "playing sl \<or> parked sl"
  shows "(playing (fst (snd (fold (voice_sample s) js (prev, sl, mix))))
          \<or> parked (fst (snd (fold (voice_sample s) js (prev, sl, mix)))))
       \<and> octave (fst (snd (fold (voice_sample s) js (prev, sl, mix)))) = octave sl"
  using assms
proof (induction js arbitrary: prev sl mix)
  case Nil
  then show ?case by simp
next
  case (Cons j js)
  obtain a b c where v: "voice_sample s j (prev, sl, mix) = (a, b, c)"
    by (cases "voice_sample s j (prev, sl, mix)")
  have k: "(playing b \<or> parked b) \<and> octave b = octave sl"
    using voice_sample_keeps [OF Cons.prems, of s j prev mix] unfolding v by simp
  have "(playing (fst (snd (fold (voice_sample s) js (a, b, c))))
          \<or> parked (fst (snd (fold (voice_sample s) js (a, b, c)))))
       \<and> octave (fst (snd (fold (voice_sample s) js (a, b, c)))) = octave b"
    by (rule Cons.IH) (simp add: k)
  then show ?case using k by (simp add: v)
qed

lemma render_voice_live:
  assumes "live_ok sl"
  shows "live_ok (fst (snd (render_voice s n (prev, sl, mix))))
       \<and> octave (fst (snd (render_voice s n (prev, sl, mix)))) = octave sl"
proof (cases "active sl \<noteq> 0")
  case True
  have p: "playing sl" and o: "octave sl \<noteq> 8"
    using assms True by (auto simp: live_ok_def playing_def)
  have r: "render_voice s n (prev, sl, mix) = fold (voice_sample s) [0 ..< n] (prev, sl, mix)"
    using True by (simp add: render_voice_def)
  define y where "y = fst (snd (fold (voice_sample s) [0 ..< n] (prev, sl, mix)))"
  have k: "(playing y \<or> parked y) \<and> octave y = octave sl"
    unfolding y_def by (rule voice_fold_keeps) (simp add: p)
  then have "live_ok y" using o by (auto simp: live_ok_def playing_def parked_def)
  then show ?thesis unfolding r y_def [symmetric] using k by simp
next
  case False
  then show ?thesis using assms by (simp add: render_voice_def)
qed

lemma render_step_slots:
  assumes "\<forall>k. (live_ok (slots k) \<or> \<not> L k) \<and> octave (slots k) = ov k"
  shows "\<forall>k. (live_ok (fst (snd ((\<lambda>(prev, slots, mix).
                    let (prev1, slot1, mix1) = render_voice s n (prev, slots i, mix)
                    in (prev1, slots(i := slot1), mix1)) (prev, slots, mix))) k) \<or> \<not> L k)
          \<and> octave (fst (snd ((\<lambda>(prev, slots, mix).
                    let (prev1, slot1, mix1) = render_voice s n (prev, slots i, mix)
                    in (prev1, slots(i := slot1), mix1)) (prev, slots, mix))) k) = ov k"
proof -
  obtain a b c where v: "render_voice s n (prev, slots i, mix) = (a, b, c)"
    by (cases "render_voice s n (prev, slots i, mix)")
  have o: "octave b = octave (slots i)"
  proof (cases "active (slots i) \<noteq> 0")
    case True
    show ?thesis
    proof -
      have r: "render_voice s n (prev, slots i, mix) = fold (voice_sample s) [0 ..< n] (prev, slots i, mix)"
        using True by (simp add: render_voice_def)
      have same: "octave (fst (snd (fold (voice_sample s) js (p0, y, m0)))) = octave y" for js p0 y m0
      proof (induction js arbitrary: p0 y m0)
        case Nil
        then show ?case by simp
      next
        case (Cons j js)
        obtain a' b' c' where w: "voice_sample s j (p0, y, m0) = (a', b', c')"
          by (cases "voice_sample s j (p0, y, m0)")
        have "octave b' = octave y"
          using voice_sample_slot [of s j p0 y m0] advance_envelope_same
          unfolding w by (simp add: same_voice_def loop_wrap_def)
        then show ?case using Cons.IH [of a' b' c'] by (simp add: w)
      qed
      show ?thesis using same [of "[0 ..< n]" prev "slots i" mix] unfolding r [symmetric] v by simp
    qed
  next
    case False
    then show ?thesis using v by (simp add: render_voice_def)
  qed
  have l: "live_ok (slots i) \<Longrightarrow> live_ok b"
    using render_voice_live [of "slots i" s n prev mix] unfolding v by simp
  show ?thesis
    using assms o l by (auto simp: v)
qed

lemma render_fold_slots:
  assumes "\<forall>k. (live_ok (slots k) \<or> \<not> L k) \<and> octave (slots k) = ov k"
  shows "\<forall>k. (live_ok (fst (snd (fold (\<lambda>i (prev, slots, mix).
                    let (prev1, slot1, mix1) = render_voice s n (prev, slots i, mix)
                    in (prev1, slots(i := slot1), mix1)) js (prev, slots, mix))) k) \<or> \<not> L k)
          \<and> octave (fst (snd (fold (\<lambda>i (prev, slots, mix).
                    let (prev1, slot1, mix1) = render_voice s n (prev, slots i, mix)
                    in (prev1, slots(i := slot1), mix1)) js (prev, slots, mix))) k) = ov k"
  using assms
proof (induction js arbitrary: prev slots mix)
  case Nil
  then show ?case by simp
next
  case (Cons j js)
  let ?F = "\<lambda>i (prev, slots, mix).
                    let (prev1, slot1, mix1) = render_voice s n (prev, slots i, mix)
                    in (prev1, slots(i := slot1), mix1)"
  obtain a b c where v: "?F j (prev, slots, mix) = (a, b, c)"
    by (cases "?F j (prev, slots, mix)")
  have k: "\<forall>k. (live_ok (b k) \<or> \<not> L k) \<and> octave (b k) = ov k"
    using render_step_slots [OF Cons.prems, of s n j prev mix] unfolding v by simp
  have e: "fold ?F (j # js) (prev, slots, mix) = fold ?F js (a, b, c)"
    unfolding fold_simps(2) v ..
  show ?case unfolding e by (rule Cons.IH [OF k])
qed

lemma sound_stream_update_fields:
  "m_pcmregs (sound_stream_update fm n s) = m_pcmregs s"
  "m_port_C (sound_stream_update fm n s) = m_port_C s"
  "m_slots (sound_stream_update fm n s) = fst (render_voices s n)"
  by (simp_all add: sound_stream_update_def split: prod.split)

lemma render_voices_slots:
  "fst (render_voices s n) =
     fst (snd (fold (\<lambda>i (prev, slots, mix).
                    let (prev1, slot1, mix1) = render_voice s n (prev, slots i, mix)
                    in (prev1, slots(i := slot1), mix1)) [0 ..< 24] (0, m_slots s, \<lambda>k. 0)))"
  by (simp add: render_voices_def split: prod.split)

lemma sound_stream_update_inv:
  assumes "chip_inv s"
  shows "chip_inv (sound_stream_update fm n s)"
proof -
  have pre: "\<forall>k. (live_ok (m_slots s k) \<or> \<not> k < 24) \<and> octave (m_slots s k) = octave (m_slots s k)"
    using assms by (auto simp: chip_inv_iff)
  have post: "\<forall>k. (live_ok (m_slots (sound_stream_update fm n s) k) \<or> \<not> k < 24)
      \<and> octave (m_slots (sound_stream_update fm n s) k) = octave (m_slots s k)"
    unfolding sound_stream_update_fields render_voices_slots
    by (rule render_fold_slots [OF pre])
  show ?thesis
    unfolding chip_inv_iff octave_tied_def sound_stream_update_fields(1)
    using post assms by (auto simp: chip_inv_iff octave_tied_def)
qed

lemma chip_inv_cong:
  assumes "m_slots a = m_slots b" and "m_pcmregs a = m_pcmregs b"
  shows "chip_inv a = chip_inv b"
  by (simp add: chip_inv_def octave_tied_def assms)

lemma timer_busy_start_fields:
  "m_slots (timer_busy_start fm p s) = m_slots s"
  "m_pcmregs (timer_busy_start fm p s) = m_pcmregs s"
  "m_port_C (timer_busy_start fm p s) = m_port_C s"
  by (simp_all add: timer_busy_start_def)

lemma write_port_inv:
  assumes "chip_inv s"
  shows "chip_inv (write_port fm pending offset data s)"
proof -
  have t: "chip_inv (timer_busy_start fm p x) = chip_inv x" for p x
    by (rule chip_inv_cong) (simp_all add: timer_busy_start_fields)
  have c: "chip_inv (C_w fm (m_port_C (timer_busy_start fm True (sound_stream_update fm pending s))) data
      (timer_busy_start fm True (sound_stream_update fm pending s)))"
    by (rule C_w_inv) (simp add: t sound_stream_update_inv [OF assms])
  have a: "chip_inv (x\<lparr>m_port_AB := u, m_lastport := v\<rparr>) = chip_inv x" for x u v
    by (rule chip_inv_cong) simp_all
  have b: "chip_inv (x\<lparr>m_fm := u\<rparr>) = chip_inv x" for x u
    by (rule chip_inv_cong) simp_all
  have d: "chip_inv (x\<lparr>m_fm := u, m_next_status_id := v\<rparr>) = chip_inv x" for x u v
    by (rule chip_inv_cong) simp_all
  have e: "chip_inv (x\<lparr>m_port_C := u\<rparr>) = chip_inv x" for x u
    by (rule chip_inv_cong) simp_all
  show ?thesis
    unfolding write_port_def Let_def using assms c by (simp add: t a b d e)
qed

lemma read_port_inv:
  assumes "chip_inv s"
  shows "chip_inv (snd (read_port fm offset s))"
proof -
  have a: "chip_inv (x\<lparr>m_next_status_id := u\<rparr>) = chip_inv x" for x u
    by (rule chip_inv_cong) simp_all
  have b: "chip_inv (x\<lparr>m_memadr := u\<rparr>) = chip_inv x" for x u
    by (rule chip_inv_cong) simp_all
  show ?thesis
    unfolding read_port_def Let_def using assms by (simp add: a b)
qed

lemma reset_writes_tie:
  assumes "i < 24" and "octave_tied i s \<or> 56 + i \<in> set ns" and "\<forall>n \<in> set ns. n < 256"
  shows "octave_tied i (fold (\<lambda>n. C_w fm (of_nat n) 0) ns s)"
  using assms(2,3)
proof (induction ns arbitrary: s)
  case Nil
  then show ?case by simp
next
  case (Cons n ns)
  have n: "n < 256" using Cons.prems(2) by simp
  have u: "unat (of_nat n :: u8) = n" using n by (simp add: unat_of_nat)
  show ?case
  proof (cases "octave_tied i s \<or> n = 56 + i")
    case True
    then have "octave_tied i (C_w fm (of_nat n) 0 s)"
      by (intro C_w_tie [OF assms(1)]) (simp add: u)
    then have "octave_tied i (fold (\<lambda>n. C_w fm (of_nat n) 0) ns (C_w fm (of_nat n) 0 s))"
      using Cons.prems(2) by (intro Cons.IH) simp_all
    then show ?thesis by simp
  next
    case False
    then have "56 + i \<in> set ns" using Cons.prems(1) by auto
    then have "octave_tied i (fold (\<lambda>n. C_w fm (of_nat n) 0) ns (C_w fm (of_nat n) 0 s))"
      using Cons.prems(2) by (intro Cons.IH) simp_all
    then show ?thesis by simp
  qed
qed

lemma reset_slot_live:
  "live_ok (reset_slot y)" "octave (reset_slot y) = octave y"
  unfolding reset_slot_def
  by (rule live_ok_release_done) (simp add: octave_compute_envelope)

lemma device_reset_inv: "chip_inv (device_reset fm s)"
proof -
  define s1 where "s1 = fold (\<lambda>i. C_w fm (of_nat i) 0) [0 ..< 8] s"
  define s2 where "s2 = fold (\<lambda>i. C_w fm (of_nat i) 0) (rev [8 ..< 256]) s1"
  define s3 where "s3 = C_w fm 0xf8 0x1b s2"
  have slots: "m_slots (device_reset fm s) = (\<lambda>i. if i < 24 then reset_slot (m_slots s3 i) else m_slots s3 i)"
    and regs: "m_pcmregs (device_reset fm s) = m_pcmregs s3"
    unfolding device_reset_def Let_def s1_def [symmetric] s2_def [symmetric] s3_def [symmetric]
    by (simp_all cong: if_cong)
  have tie: "octave_tied i s3" if i: "i < 24" for i
  proof -
    have m: "56 + i \<in> set (rev [8 ..< 256])"
      unfolding set_rev set_upt using i by simp
    have b: "\<forall>n \<in> set (rev [8 ..< 256]). n < 256"
      unfolding set_rev set_upt by simp
    have "octave_tied i s2"
      unfolding s2_def by (rule reset_writes_tie [OF i disjI2 [OF m] b])
    then show ?thesis unfolding s3_def by (intro C_w_tie [OF i]) simp
  qed
  show ?thesis
    unfolding chip_inv_iff octave_tied_def slots regs
    using tie by (simp add: reset_slot_live octave_tied_def)
qed

lemma reachable_inv:
  assumes "reachable fm s"
  shows "chip_inv s"
  using assms
proof (induction rule: reachable.induct)
  case (reach_reset s)
  show ?case by (rule device_reset_inv)
next
  case (reach_write s pending offset data)
  then show ?case by (intro write_port_inv)
next
  case (reach_read s offset)
  then show ?case by (intro read_port_inv)
next
  case (reach_update s n)
  then show ?case by (intro sound_stream_update_inv)
next
  case (reach_timer s tid)
  have "chip_inv (device_timer fm tid s) = chip_inv s"
    by (rule chip_inv_cong) (simp_all add: device_timer_def split: device_timer_id.split)
  then show ?case using reach_timer.IH by simp
next
  case (reach_clock s)
  have "chip_inv (device_clock_changed s) = chip_inv s"
    by (rule chip_inv_cong) (simp_all add: device_clock_changed_def)
  then show ?case using reach_clock.IH by simp
qed

lemma render_voices_fold:
  "render_voices s n =
     (let (prev, slots, mix) = fold (render_slot s n) [0 ..< 24] (0, m_slots s, \<lambda>k. 0)
      in (slots, mix))"
proof -
  have "(\<lambda>i (prev, slots, mix).
                    let (prev1, slot1, mix1) = render_voice s n (prev, slots i, mix)
                    in (prev1, slots(i := slot1), mix1)) = render_slot s n"
    by (intro ext) (simp add: render_slot_def split: prod.split)
  then show ?thesis unfolding render_voices_def by simp
qed

lemma render_slot_idle:
  assumes "active (slots i) = 0"
  shows "render_slot s n i (prev, slots, mix) = (prev, slots, mix)"
  using assms by (simp add: render_slot_def render_voice_def)

lemma render_slot_other:
  assumes "k \<noteq> i"
  shows "fst (snd (render_slot s n k (prev, slots, mix))) i = slots i"
  using assms by (simp add: render_slot_def split: prod.split)

lemma render_fold_skip:
  assumes "active (slots i) = 0"
  shows "fold (render_slot s n) ks (prev, slots, mix)
       = fold (render_slot s n) (filter (\<lambda>k. k \<noteq> i) ks) (prev, slots, mix)"
  using assms
proof (induction ks arbitrary: prev slots mix)
  case Nil
  then show ?case by simp
next
  case (Cons k ks)
  show ?case
  proof (cases "k = i")
    case True
    have "fold (render_slot s n) (k # ks) (prev, slots, mix) = fold (render_slot s n) ks (prev, slots, mix)"
      using render_slot_idle [where slots = slots and i = i and s = s and n = n and prev = prev
          and mix = mix, OF Cons.prems] True by simp
    also have "\<dots> = fold (render_slot s n) (filter (\<lambda>k. k \<noteq> i) ks) (prev, slots, mix)"
      by (rule Cons.IH) (rule Cons.prems)
    finally show ?thesis using True by simp
  next
    case False
    obtain a b c where v: "render_slot s n k (prev, slots, mix) = (a, b, c)"
      by (cases "render_slot s n k (prev, slots, mix)")
    have "b i = slots i" using render_slot_other [OF False, of s n prev slots mix] unfolding v by simp
    then have idle: "active (b i) = 0" using Cons.prems by simp
    have "fold (render_slot s n) ks (a, b, c) = fold (render_slot s n) (filter (\<lambda>k. k \<noteq> i) ks) (a, b, c)"
      by (rule Cons.IH) (rule idle)
    then show ?thesis using False by (simp add: v)
  qed
qed

text \<open>
  C7.  In every state the chip can reach, a slot is active exactly when its octave is
  not 8 and its envelope step is neither 3 (decay 2 done) nor 5 (release done).  So a slot
  whose octave is 8 is skipped by the voice loop of \<open>sound_stream_update\<close>, whatever its
  other members hold: its pass leaves the last sample, the slot and all four accumulators
  of every output sample as they are, and the slots and the mix buffer the whole loop
  produces are those of the loop over the other 23 slots.
\<close>

theorem mute_octave_silent:
  assumes "reachable fm s" and "i < 24"
  shows "(active (m_slots s i) \<noteq> 0)
           = (octave (m_slots s i) \<noteq> 8 \<and> env_step (m_slots s i) \<noteq> 3 \<and> env_step (m_slots s i) \<noteq> 5)
       \<and> (octave (m_slots s i) = 8 \<longrightarrow>
            render_voice s n (prev, m_slots s i, mix) = (prev, m_slots s i, mix)
            \<and> render_voices s n = render_voices_without i s n
            \<and> m_mix_buffer (sound_stream_update fm n s) = snd (render_voices_without i s n))"
proof -
  have inv: "chip_inv s" by (rule reachable_inv [OF assms(1)])
  then have l: "live_ok (m_slots s i)" using assms(2) by (simp add: chip_inv_iff)
  then have iff: "(active (m_slots s i) \<noteq> 0)
           = (octave (m_slots s i) \<noteq> 8 \<and> env_step (m_slots s i) \<noteq> 3 \<and> env_step (m_slots s i) \<noteq> 5)"
    by (simp add: live_ok_def)
  have mute: "render_voice s n (prev, m_slots s i, mix) = (prev, m_slots s i, mix)
            \<and> render_voices s n = render_voices_without i s n
            \<and> m_mix_buffer (sound_stream_update fm n s) = snd (render_voices_without i s n)"
    if o: "octave (m_slots s i) = 8"
  proof -
    have idle: "active (m_slots s i) = 0" using iff o by simp
    have a: "render_voice s n (prev, m_slots s i, mix) = (prev, m_slots s i, mix)"
      using idle by (simp add: render_voice_def)
    have b: "render_voices s n = render_voices_without i s n"
      unfolding render_voices_fold render_voices_without_def
      by (simp only: render_fold_skip [where slots = "m_slots s" and i = i and s = s and n = n
            and ks = "[0 ..< 24]" and prev = 0 and mix = "\<lambda>k. 0", OF idle, symmetric])
    have c: "m_mix_buffer (sound_stream_update fm n s) = snd (render_voices s n)"
      by (simp add: sound_stream_update_def split: prod.split)
    show ?thesis using a b c by simp
  qed
  show ?thesis using iff mute by blast
qed

lemma write_port_pcm:
  assumes "fm_new2flag fm (m_fm s) \<noteq> 0"
  shows "write_port fm pending 5 data s
       = C_w fm (m_port_C s) data (timer_busy_start fm True (sound_stream_update fm pending s))"
  using assms
  by (simp add: write_port_def Let_def timer_busy_start_fields sound_stream_update_fields)

lemma write_port_select:
  "m_port_C (write_port fm pending 4 data s) = data"
  "m_fm (write_port (counting_engine x) pending 4 data s) = m_fm s"
  by (simp_all add: write_port_def Let_def timer_busy_start_def counting_engine_def)

theorem mute_octave_silent_witness:
  "reachable (counting_engine 1)
     (write_port (counting_engine 1) 0 5 0x80
        (write_port (counting_engine 1) 0 4 56 (device_reset (counting_engine 1) blank_chip)))
   \<and> (0 :: nat) < 24
   \<and> octave (m_slots (write_port (counting_engine 1) 0 5 0x80
        (write_port (counting_engine 1) 0 4 56 (device_reset (counting_engine 1) blank_chip))) 0) = 8
   \<and> active (m_slots (write_port (counting_engine 1) 0 5 0x80
        (write_port (counting_engine 1) 0 4 56 (device_reset (counting_engine 1) blank_chip))) 0) = 0
   \<and> render_voices (write_port (counting_engine 1) 0 5 0x80
        (write_port (counting_engine 1) 0 4 56 (device_reset (counting_engine 1) blank_chip))) 3
      = render_voices_without 0 (write_port (counting_engine 1) 0 5 0x80
        (write_port (counting_engine 1) 0 4 56 (device_reset (counting_engine 1) blank_chip))) 3"
proof -
  let ?fm = "counting_engine 1"
  let ?s0 = "device_reset ?fm blank_chip"
  let ?s1 = "write_port ?fm 0 4 56 ?s0"
  let ?S = "write_port ?fm 0 5 0x80 ?s1"
  have r: "reachable ?fm ?S"
    by (intro reachable.intros)
  have n2: "fm_new2flag ?fm (m_fm ?s1) \<noteq> 0" by (simp add: counting_engine_def)
  define t where "t = timer_busy_start ?fm True (sound_stream_update ?fm 0 ?s1)"
  have S: "?S = C_w ?fm 56 0x80 t"
    unfolding write_port_pcm [OF n2] write_port_select t_def ..
  have r2: "unat (56 :: u8) = 8 + 0 + 24 * 2" "(0 :: nat) < 24" "(1 :: nat) \<le> 2" "(2 :: nat) \<le> 9"
    by simp_all
  have o: "octave (m_slots ?S 0) = 8"
    unfolding S C_w_slot_reg [OF r2] by (simp add: C_w_slot_octave octave_of_def)
  note th = mute_octave_silent [OF r r2(2), of 3 0 "\<lambda>k. 0"]
  have a: "active (m_slots ?S 0) = 0" using th o by simp
  have b: "render_voices ?S 3 = render_voices_without 0 ?S 3" using th o by blast
  show ?thesis using r o a b by simp
qed

end
